theory Spec2Isabelle
  imports Complex_Main "HOL-Library.Word" "HOL-Library.Multiset"
begin

section \<open>Data model of the tracker\<close>

text \<open>
  The class declaration (\<open>urVision/ObjectTracker.h\<close>) is not part of the two files
  verified here, so the types it declares are fixed from their uses in
  \<open>ObjectTracker.cpp\<close>:
  \<^item> \<open>Object\<close> has the fields \<open>x\<close>, \<open>y\<close>, \<open>z\<close> and \<open>size\<close>; their values are
    kept as real numbers;
  \<^item> \<open>Distance\<close> is a floating point type: the cast to it, its subtraction, product and
    sum and the \<open>sqrt\<close> of \<open>math.h\<close> round their results in a way the two files do not
    fix, so they are the fields of a parameter \<open>ar\<close> of every function that computes a
    distance, and every statement holds whatever they are; distances are kept as real
    numbers (an input that is not finite is left to the caller by the spec);
  \<^item> \<open>operator>\<close> on \<open>Object\<close> is a parameter \<open>gt\<close> of every function that uses it;
  \<^item> the counters stored per identity are compared with the \<open>uint32_t\<close> constructor
    arguments and are 32-bit words;
  \<^item> \<open>std::sort\<close> is a parameter \<open>srt\<close>: the library promises a sorted permutation
    and nothing about the order of equivalent elements. That order is the subject of one
    statement only, which is made for the sort of GNU libstdc++.

  Reading a vector out of range is undefined in C++; the model writes \<open>xs ! i\<close>, and every
  statement about such a read is made for states in which the index is in range. The
  conversion of the two sizes to \<open>int32_t\<close> in \<open>update\<close> is the identity on the sizes
  considered.
\<close>

text \<open>Modelled from the spec: the typedef of \<open>ObjectID\<close> is missing; the spec calls it a
  monotonically assigned integer, taken here as an unbounded natural number.\<close>
type_synonym ObjectID = nat

type_synonym Distance = real

record arith =
  to_Distance :: "real \<Rightarrow> Distance"
  d_sub :: "Distance \<Rightarrow> Distance \<Rightarrow> Distance"
  d_mul :: "Distance \<Rightarrow> Distance \<Rightarrow> Distance"
  d_add :: "Distance \<Rightarrow> Distance \<Rightarrow> Distance"
  d_sqrt :: "Distance \<Rightarrow> Distance"

record Object =
  obj_x :: real
  obj_y :: real
  obj_z :: real
  obj_size :: real

type_synonym std_sort = "(nat \<Rightarrow> nat \<Rightarrow> bool) \<Rightarrow> nat list \<Rightarrow> nat list"

record ObjectTracker =
  m_dist_tol :: Distance
  m_max_dissapeared_frms :: "32 word"
  m_min_framecount :: "32 word"
  m_next_id :: ObjectID
  m_id_list :: "ObjectID list"
  m_active_objects :: "ObjectID \<rightharpoonup> Object"
  m_uprooted :: "ObjectID \<rightharpoonup> bool"
  m_disappeared :: "ObjectID \<rightharpoonup> 32 word"
  m_framecount :: "ObjectID \<rightharpoonup> 32 word"

subsection \<open>std::map\<close>

text \<open>
  \<open>m[k]\<close> on a \<open>std::map\<close> inserts a value-initialised entry when \<open>k\<close> is absent and
  then yields the entry: \<open>map_at\<close> is the value read, \<open>touch\<close> the map left behind.
  Iteration visits the keys in ascending order. A value-initialised \<open>Object\<close> is taken to
  have all fields 0, a counter is 0 and a flag is false.
\<close>

definition map_at :: "'v \<Rightarrow> ('k \<rightharpoonup> 'v) \<Rightarrow> 'k \<Rightarrow> 'v" where
  "map_at d m k = (case m k of None \<Rightarrow> d | Some v \<Rightarrow> v)"

definition touch :: "'v \<Rightarrow> ('k \<rightharpoonup> 'v) \<Rightarrow> 'k \<Rightarrow> ('k \<rightharpoonup> 'v)" where
  "touch d m k = (case m k of None \<Rightarrow> m(k \<mapsto> d) | Some v \<Rightarrow> m)"

definition keys :: "(ObjectID \<rightharpoonup> 'v) \<Rightarrow> ObjectID list" where
  "keys m = sorted_list_of_set (dom m)"

definition Object0 :: Object where
  "Object0 = \<lparr>obj_x = 0, obj_y = 0, obj_z = 0, obj_size = 0\<rparr>"

abbreviation obj_at :: "(ObjectID \<rightharpoonup> Object) \<Rightarrow> ObjectID \<Rightarrow> Object" where
  "obj_at \<equiv> map_at Object0"

abbreviation cnt_at :: "(ObjectID \<rightharpoonup> 32 word) \<Rightarrow> ObjectID \<Rightarrow> 32 word" where
  "cnt_at \<equiv> map_at 0"

section \<open>The operations\<close>

definition euclidean_distance :: "arith \<Rightarrow> Object \<Rightarrow> Object \<Rightarrow> Distance" where
  "euclidean_distance ar a b =
     (let delt_x = d_sub ar (to_Distance ar (obj_x a)) (to_Distance ar (obj_x b));
          delt_y = d_sub ar (to_Distance ar (obj_y a)) (to_Distance ar (obj_y b));
          delt_z = d_sub ar (to_Distance ar (obj_z a)) (to_Distance ar (obj_z b))
      in d_sqrt ar (d_add ar (d_add ar (d_mul ar delt_x delt_x) (d_mul ar delt_y delt_y))
                             (d_mul ar delt_z delt_z)))"

text \<open>The constructor sets the three configuration members; the first identifier is the
  member initialiser of \<open>m_next_id\<close> in the missing header, a parameter here.\<close>

definition ObjectTracker_new :: "ObjectID \<Rightarrow> Distance \<Rightarrow> 32 word \<Rightarrow> 32 word \<Rightarrow> ObjectTracker" where
  "ObjectTracker_new first_id distTol max_dissapeared_frms min_valid_framecount =
     \<lparr>m_dist_tol = distTol,
      m_max_dissapeared_frms = max_dissapeared_frms,
      m_min_framecount = min_valid_framecount,
      m_next_id = first_id,
      m_id_list = [],
      m_active_objects = Map.empty,
      m_uprooted = Map.empty,
      m_disappeared = Map.empty,
      m_framecount = Map.empty\<rparr>"

fun active_objects_loop ::
  "ObjectID list \<Rightarrow> (ObjectID \<rightharpoonup> Object) \<Rightarrow> Object list \<Rightarrow> Object list \<times> (ObjectID \<rightharpoonup> Object)" where
  "active_objects_loop [] m to_ret = (to_ret, m)"
| "active_objects_loop (i # ids) m to_ret =
     active_objects_loop ids (touch Object0 m i) (to_ret @ [obj_at m i])"

definition active_objects :: "ObjectTracker \<Rightarrow> Object list \<times> ObjectTracker" where
  "active_objects s =
     (case active_objects_loop (m_id_list s) (m_active_objects s) [] of
        (to_ret, m) \<Rightarrow> (to_ret, s\<lparr>m_active_objects := m\<rparr>))"

definition object_count :: "ObjectTracker \<Rightarrow> nat \<times> ObjectTracker" where
  "object_count s = (card (dom (m_active_objects s)), s)"

text \<open>The scan of \<open>topValid\<close> over the entries of \<open>m_active_objects\<close>; the second test is
  evaluated (and its entry touched) only when the first holds.\<close>

fun topValid_loop :: "ObjectID list \<Rightarrow> ObjectTracker \<Rightarrow> Object option \<times> ObjectTracker" where
  "topValid_loop [] s = (None, s)"
| "topValid_loop (k # ks) s =
     (let s1 = s\<lparr>m_framecount := touch 0 (m_framecount s) k\<rparr> in
      if m_min_framecount s1 \<le> cnt_at (m_framecount s1) k then
        (let s2 = s1\<lparr>m_uprooted := touch False (m_uprooted s1) k\<rparr> in
         if False = map_at False (m_uprooted s2) k then
           (Some (the (m_active_objects s2 k)), s2\<lparr>m_uprooted := (m_uprooted s2)(k \<mapsto> True)\<rparr>)
         else topValid_loop ks s2)
      else topValid_loop ks s1)"

definition topValid :: "ObjectTracker \<Rightarrow> Object option \<times> ObjectTracker" where
  "topValid s =
     (if fst (object_count s) = 0 then (None, s)
      else topValid_loop (keys (m_active_objects s)) s)"

definition top_obj :: "ObjectTracker \<Rightarrow> Object option \<times> ObjectTracker" where
  "top_obj s =
     (if fst (object_count s) = 0 then (None, s)
      else (Some (obj_at (m_active_objects s) (m_id_list s ! 0)),
            s\<lparr>m_active_objects := touch Object0 (m_active_objects s) (m_id_list s ! 0)\<rparr>))"

text \<open>The insertion scan of \<open>register_object\<close>: the number of leading identifiers whose
  object is greater than \<open>obj\<close>, and the map after the reads.\<close>

fun register_scan ::
  "(Object \<Rightarrow> Object \<Rightarrow> bool) \<Rightarrow> Object \<Rightarrow> ObjectID list \<Rightarrow> (ObjectID \<rightharpoonup> Object)
     \<Rightarrow> nat \<times> (ObjectID \<rightharpoonup> Object)" where
  "register_scan gt obj [] m = (0, m)"
| "register_scan gt obj (i # ids) m =
     (if gt (obj_at m i) obj
      then (case register_scan gt obj ids (touch Object0 m i) of (p, m') \<Rightarrow> (Suc p, m'))
      else (0, touch Object0 m i))"

definition register_object ::
  "(Object \<Rightarrow> Object \<Rightarrow> bool) \<Rightarrow> ObjectTracker \<Rightarrow> Object \<Rightarrow> ObjectID \<times> ObjectTracker" where
  "register_object gt s obj =
     (case register_scan gt obj (m_id_list s) (m_active_objects s) of
        (p, m) \<Rightarrow>
          (m_next_id s,
           s\<lparr>m_id_list := take p (m_id_list s) @ m_next_id s # drop p (m_id_list s),
             m_active_objects := m(m_next_id s \<mapsto> obj),
             m_uprooted := (m_uprooted s)(m_next_id s \<mapsto> False),
             m_disappeared := (m_disappeared s)(m_next_id s \<mapsto> 0),
             m_framecount := (m_framecount s)(m_next_id s \<mapsto> 1),
             m_next_id := Suc (m_next_id s)\<rparr>))"

definition deregister_object :: "ObjectTracker \<Rightarrow> ObjectID \<Rightarrow> ObjectTracker" where
  "deregister_object s i =
     s\<lparr>m_active_objects := (m_active_objects s)(i := None),
       m_uprooted := (m_uprooted s)(i := None),
       m_disappeared := (m_disappeared s)(i := None),
       m_framecount := (m_framecount s)(i := None),
       m_id_list := remove1 i (m_id_list s)\<rparr>"

text \<open>
  \<open>cleanup_dissapeared\<close> walks \<open>m_disappeared\<close> with an iterator. At the first entry whose
  count exceeds \<open>m_max_dissapeared_frms\<close> it calls \<open>deregister_object\<close>, which erases that
  very entry, and then increments the iterator of the erased entry: from there on C++
  leaves the behaviour undefined. The model stops there with an error that holds the
  tracker as the erase left it. When no count exceeds the maximum the loop changes
  nothing.
\<close>

datatype error = InvalidatedIterator ObjectTracker

fun cleanup_loop :: "(ObjectID \<times> 32 word) list \<Rightarrow> ObjectTracker \<Rightarrow> error + ObjectTracker" where
  "cleanup_loop [] s = Inr s"
| "cleanup_loop ((k, v) # rest) s =
     (if m_max_dissapeared_frms s < v then Inl (InvalidatedIterator (deregister_object s k))
      else cleanup_loop rest s)"

definition cleanup_dissapeared :: "ObjectTracker \<Rightarrow> error + ObjectTracker" where
  "cleanup_dissapeared s =
     cleanup_loop (map (\<lambda>k. (k, the (m_disappeared s k))) (keys (m_disappeared s))) s"

text \<open>\<open>m_disappeared[id]++; m_framecount[id] = 0;\<close>\<close>

definition mark_missing :: "ObjectTracker \<Rightarrow> ObjectID \<Rightarrow> ObjectTracker" where
  "mark_missing s i =
     s\<lparr>m_disappeared := (m_disappeared s)(i \<mapsto> cnt_at (m_disappeared s) i + 1),
       m_framecount := (m_framecount s)(i \<mapsto> 0)\<rparr>"

text \<open>\<open>m_active_objects[id] = new_objs[c]; m_framecount[id]++;\<close>\<close>

definition mark_found :: "ObjectTracker \<Rightarrow> ObjectID \<Rightarrow> Object \<Rightarrow> ObjectTracker" where
  "mark_found s i obj =
     s\<lparr>m_active_objects := (m_active_objects s)(i \<mapsto> obj),
       m_framecount := (m_framecount s)(i \<mapsto> cnt_at (m_framecount s) i + 1)\<rparr>"

definition dist_matrix :: "arith \<Rightarrow> ObjectTracker \<Rightarrow> Object list \<Rightarrow> nat \<Rightarrow> nat \<Rightarrow> Distance list list" where
  "dist_matrix ar s new_objs m n =
     map (\<lambda>i. map (\<lambda>j. euclidean_distance ar (obj_at (m_active_objects s) (m_id_list s ! i)) (new_objs ! j))
                  [0..<n])
         [0..<m]"

text \<open>One row of \<open>sorted_ids\<close>: the columns \<open>0..n-1\<close> sorted by the row's distances.\<close>

definition rank_row :: "std_sort \<Rightarrow> Distance list \<Rightarrow> nat \<Rightarrow> nat list" where
  "rank_row srt drow n = srt (\<lambda>a b. drow ! a < drow ! b) [0..<n]"

definition sorted_ids :: "std_sort \<Rightarrow> Distance list list \<Rightarrow> nat \<Rightarrow> nat \<Rightarrow> nat list list" where
  "sorted_ids srt D m n = map (\<lambda>i. rank_row srt (D ! i) n) [0..<m]"

definition active_obj_ids :: "std_sort \<Rightarrow> Distance list list \<Rightarrow> nat list list \<Rightarrow> nat \<Rightarrow> nat list" where
  "active_obj_ids srt D ids m =
     srt (\<lambda>a b. D ! a ! (ids ! a ! 0) < D ! b ! (ids ! b ! 0)) [0..<m]"

text \<open>One pass of the outer matching loop, for the row \<open>r\<close>; \<open>used\<close> is \<open>used_cols\<close>.\<close>

definition match_row ::
  "Distance list list \<Rightarrow> nat list list \<Rightarrow> Object list \<Rightarrow> nat \<Rightarrow> ObjectTracker \<times> nat set
     \<Rightarrow> ObjectTracker \<times> nat set" where
  "match_row D ids new_objs r st =
     (case st of (s, used) \<Rightarrow>
        (case find (\<lambda>c. c \<notin> used \<and> D ! r ! c < m_dist_tol s) (ids ! r) of
           Some c \<Rightarrow> (mark_found s (m_id_list s ! r) (new_objs ! c), insert c used)
         | None \<Rightarrow> (mark_missing s (m_id_list s ! r), used)))"

definition register_unused ::
  "(Object \<Rightarrow> Object \<Rightarrow> bool) \<Rightarrow> Object list \<Rightarrow> nat set \<Rightarrow> nat list \<Rightarrow> ObjectTracker \<Rightarrow> ObjectTracker" where
  "register_unused gt new_objs used cols s =
     fold (\<lambda>x t. if x \<notin> used then snd (register_object gt t (new_objs ! x)) else t) cols s"

text \<open>The three branches of \<open>update\<close>, before the cleanup.\<close>

definition update_none :: "ObjectTracker \<Rightarrow> ObjectTracker" where
  "update_none s = fold (\<lambda>k t. mark_missing t k) (keys (m_disappeared s)) s"

definition update_all_new ::
  "(Object \<Rightarrow> Object \<Rightarrow> bool) \<Rightarrow> ObjectTracker \<Rightarrow> Object list \<Rightarrow> ObjectTracker" where
  "update_all_new gt s new_objs = fold (\<lambda>obj t. snd (register_object gt t obj)) new_objs s"

definition update_match ::
  "arith \<Rightarrow> (Object \<Rightarrow> Object \<Rightarrow> bool) \<Rightarrow> std_sort \<Rightarrow> ObjectTracker \<Rightarrow> Object list \<Rightarrow> ObjectTracker" where
  "update_match ar gt srt s new_objs =
     (let m = card (dom (m_active_objects s));
          n = length new_objs;
          D = dist_matrix ar s new_objs m n;
          s0 = s\<lparr>m_active_objects :=
                   fold (\<lambda>i mp. touch Object0 mp (m_id_list s ! i)) [0..<m] (m_active_objects s)\<rparr>;
          ids = sorted_ids srt D m n;
          rows = active_obj_ids srt D ids m;
          (s1, used) = fold (match_row D ids new_objs) rows (s0, {})
      in register_unused gt new_objs used (ids ! 0) s1)"

definition update_body ::
  "arith \<Rightarrow> (Object \<Rightarrow> Object \<Rightarrow> bool) \<Rightarrow> std_sort \<Rightarrow> ObjectTracker \<Rightarrow> Object list \<Rightarrow> ObjectTracker" where
  "update_body ar gt srt s new_objs =
     (if length new_objs = 0 then update_none s
      else if card (dom (m_active_objects s)) = 0 then update_all_new gt s new_objs
      else update_match ar gt srt s new_objs)"

definition update ::
  "arith \<Rightarrow> (Object \<Rightarrow> Object \<Rightarrow> bool) \<Rightarrow> std_sort \<Rightarrow> ObjectTracker \<Rightarrow> Object list
     \<Rightarrow> error + ObjectTracker" where
  "update ar gt srt s new_objs = cleanup_dissapeared (update_body ar gt srt s new_objs)"

section \<open>Notions used to state the properties\<close>

subsection \<open>What \<open>std::sort\<close> promises\<close>

text \<open>
  Both calls of \<open>std::sort\<close> compare indices through a real-valued key. For such a
  comparator the library returns a permutation of its input in ascending key order; the
  order of elements with equal keys is left open.
\<close>

definition std_sort_ok :: "std_sort \<Rightarrow> bool" where
  "std_sort_ok srt \<longleftrightarrow>
     (\<forall>(key :: nat \<Rightarrow> real) xs.
        mset (srt (\<lambda>a b. key a < key b) xs) = mset xs \<and>
        sorted_wrt (\<lambda>a b. key a \<le> key b) (srt (\<lambda>a b. key a < key b) xs))"

text \<open>A sorting function that keeps this promise, for the sample runs: insertion
  sort.\<close>

fun insort_by :: "(nat \<Rightarrow> nat \<Rightarrow> bool) \<Rightarrow> nat \<Rightarrow> nat list \<Rightarrow> nat list" where
  "insort_by lt a [] = [a]"
| "insort_by lt a (b # bs) = (if lt b a then b # insort_by lt a bs else a # b # bs)"

definition insertion_sort :: std_sort where
  "insertion_sort lt xs = foldr (insort_by lt) xs []"

subsection \<open>The ranking relation\<close>

text \<open>Modelled from the spec: \<open>operator>\<close> of \<open>Object\<close> is declared in the missing header;
  the spec takes it to rank by \<open>size\<close>, larger first.\<close>

definition by_size :: "Object \<Rightarrow> Object \<Rightarrow> bool" where
  "by_size a b \<longleftrightarrow> obj_size b < obj_size a"

definition ranked_desc :: "(Object \<Rightarrow> Object \<Rightarrow> bool) \<Rightarrow> Object list \<Rightarrow> bool" where
  "ranked_desc gt objs = sorted_wrt (\<lambda>a b. \<not> gt b a) objs"

subsection \<open>Calls and reachable states\<close>

datatype call = Update "Object list" | TopValid | Top | ActiveObjects | ObjectCount

text \<open>A call returns the tracker it leaves, or the error of \<open>cleanup_dissapeared\<close>; a run
  of calls stops at the first error. The reachable states are those a newly constructed
  tracker gets to through calls that return.\<close>

fun step ::
  "arith \<Rightarrow> (Object \<Rightarrow> Object \<Rightarrow> bool) \<Rightarrow> std_sort \<Rightarrow> call \<Rightarrow> ObjectTracker \<Rightarrow> error + ObjectTracker" where
  "step ar gt srt (Update new_objs) s = update ar gt srt s new_objs"
| "step ar gt srt TopValid s = Inr (snd (topValid s))"
| "step ar gt srt Top s = Inr (snd (top_obj s))"
| "step ar gt srt ActiveObjects s = Inr (snd (active_objects s))"
| "step ar gt srt ObjectCount s = Inr (snd (object_count s))"

fun run ::
  "arith \<Rightarrow> (Object \<Rightarrow> Object \<Rightarrow> bool) \<Rightarrow> std_sort \<Rightarrow> call list \<Rightarrow> ObjectTracker \<Rightarrow> error + ObjectTracker" where
  "run ar gt srt [] s = Inr s"
| "run ar gt srt (c # calls) s =
     (case step ar gt srt c s of Inl e \<Rightarrow> Inl e | Inr s' \<Rightarrow> run ar gt srt calls s')"

inductive reachable :: "arith \<Rightarrow> (Object \<Rightarrow> Object \<Rightarrow> bool) \<Rightarrow> std_sort \<Rightarrow> ObjectTracker \<Rightarrow> bool"
  for ar :: arith and gt :: "Object \<Rightarrow> Object \<Rightarrow> bool" and srt :: std_sort where
  constructed: "reachable ar gt srt (ObjectTracker_new first_id distTol max_dissapeared_frms min_valid_framecount)"
| called: "reachable ar gt srt s \<Longrightarrow> step ar gt srt c s = Inr s' \<Longrightarrow> reachable ar gt srt s'"

subsection \<open>The registry invariant\<close>

text \<open>The identifier list is a duplicate-free enumeration of the keys of \<open>m_active_objects\<close>,
  the four maps have the same keys, and every key is below \<open>m_next_id\<close>.\<close>

definition tracker_inv :: "ObjectTracker \<Rightarrow> bool" where
  "tracker_inv s \<longleftrightarrow>
     distinct (m_id_list s) \<and> set (m_id_list s) = dom (m_active_objects s) \<and>
     dom (m_uprooted s) = dom (m_active_objects s) \<and>
     dom (m_disappeared s) = dom (m_active_objects s) \<and>
     dom (m_framecount s) = dom (m_active_objects s) \<and>
     (\<forall>k \<in> dom (m_active_objects s). k < m_next_id s)"

text \<open>The identities whose count exceeds the maximum.\<close>

definition stale :: "ObjectTracker \<Rightarrow> ObjectID \<Rightarrow> bool" where
  "stale s k \<longleftrightarrow> k \<in> dom (m_disappeared s) \<and> m_max_dissapeared_frms s < the (m_disappeared s k)"

subsection \<open>The effect of one frame on one identity\<close>

definition entry :: "ObjectTracker \<Rightarrow> ObjectID \<Rightarrow> Object option \<times> 32 word option \<times> 32 word option" where
  "entry s k = (m_active_objects s k, m_framecount s k, m_disappeared s k)"

definition found_entry ::
  "Distance \<Rightarrow> Distance list \<Rightarrow> nat list \<Rightarrow> Object list
     \<Rightarrow> Object option \<times> 32 word option \<times> 32 word option
     \<Rightarrow> Object option \<times> 32 word option \<times> 32 word option \<Rightarrow> bool" where
  "found_entry tol drow cols new_objs e e' \<longleftrightarrow>
     (case e of (ob, fc, di) \<Rightarrow>
        \<exists>c \<in> set cols. drow ! c < tol \<and>
           e' = (Some (new_objs ! c), Some ((case fc of None \<Rightarrow> 0 | Some v \<Rightarrow> v) + 1), di))"

definition missed_entry ::
  "Object option \<times> 32 word option \<times> 32 word option
     \<Rightarrow> Object option \<times> 32 word option \<times> 32 word option \<Rightarrow> bool" where
  "missed_entry e e' \<longleftrightarrow>
     (case e of (ob, fc, di) \<Rightarrow>
        e' = (ob, Some 0, Some ((case di of None \<Rightarrow> 0 | Some v \<Rightarrow> v) + 1)))"

text \<open>Registering a list of objects one after the other, and the matching loop of the
  general case on a tracker whose identifier list enumerates its objects.\<close>

definition reg_all :: "(Object \<Rightarrow> Object \<Rightarrow> bool) \<Rightarrow> Object list \<Rightarrow> ObjectTracker \<Rightarrow> ObjectTracker" where
  "reg_all gt objs s = fold (\<lambda>obj t. snd (register_object gt t obj)) objs s"

definition match_phase :: "arith \<Rightarrow> std_sort \<Rightarrow> ObjectTracker \<Rightarrow> Object list \<Rightarrow> ObjectTracker \<times> nat set" where
  "match_phase ar srt s new_objs =
     (let m = length (m_id_list s);
          n = length new_objs;
          D = dist_matrix ar s new_objs m n;
          ids = sorted_ids srt D m n
      in fold (match_row D ids new_objs) (active_obj_ids srt D ids m) (s, {}))"

subsection \<open>Eligibility for \<open>topValid\<close>\<close>

definition eligible :: "ObjectTracker \<Rightarrow> ObjectID \<Rightarrow> bool" where
  "eligible s k \<longleftrightarrow>
     m_min_framecount s \<le> cnt_at (m_framecount s) k \<and> \<not> map_at False (m_uprooted s) k"

definition eligible_ids :: "ObjectTracker \<Rightarrow> ObjectID list" where
  "eligible_ids s = filter (eligible s) (keys (m_active_objects s))"

definition claim :: "ObjectTracker \<Rightarrow> ObjectID \<Rightarrow> ObjectTracker" where
  "claim s k = s\<lparr>m_uprooted := (m_uprooted s)(k \<mapsto> True)\<rparr>"

text \<open>An identifier that was handed out before and is no longer tracked, or is tracked
  with its flag set.\<close>

definition retired :: "ObjectID \<Rightarrow> ObjectTracker \<Rightarrow> bool" where
  "retired k t \<longleftrightarrow> k < m_next_id t \<and> (k \<in> dom (m_active_objects t) \<longrightarrow> m_uprooted t k = Some True)"

subsection \<open>Sample runs\<close>

text \<open>Arithmetic without rounding. The coordinates of the sample runs are small whole
  numbers and so are all differences, squares, sums and square roots computed from them;
  a binary floating point format holds such values exactly and computes them exactly.\<close>

definition exact :: arith where
  "exact = \<lparr>to_Distance = (\<lambda>v. v), d_sub = (\<lambda>a b. a - b), d_mul = (\<lambda>a b. a * b),
            d_add = (\<lambda>a b. a + b), d_sqrt = sqrt\<rparr>"

definition Obj :: "real \<Rightarrow> real \<Rightarrow> real \<Rightarrow> real \<Rightarrow> Object" where
  "Obj a b c d = \<lparr>obj_x = a, obj_y = b, obj_z = c, obj_size = d\<rparr>"

definition tracker0 :: ObjectTracker where
  "tracker0 = ObjectTracker_new 0 2 2 2"

text \<open>The trackers the sample runs pass through, written out; that the calls lead to
  them is proved below.\<close>

definition tracker1 :: ObjectTracker where
  "tracker1 =
     \<lparr>m_dist_tol = 2, m_max_dissapeared_frms = 2, m_min_framecount = 2, m_next_id = 2,
      m_id_list = [0, 1],
      m_active_objects = [0 \<mapsto> Obj 0 0 0 5, 1 \<mapsto> Obj 10 0 0 3],
      m_uprooted = [0 \<mapsto> False, 1 \<mapsto> False],
      m_disappeared = [0 \<mapsto> 0, 1 \<mapsto> 0],
      m_framecount = [0 \<mapsto> 1, 1 \<mapsto> 1]\<rparr>"

definition tracker2 :: ObjectTracker where
  "tracker2 =
     \<lparr>m_dist_tol = 2, m_max_dissapeared_frms = 2, m_min_framecount = 2, m_next_id = 2,
      m_id_list = [0, 1],
      m_active_objects = [0 \<mapsto> Obj 0 0 0 1, 1 \<mapsto> Obj 11 0 0 3],
      m_uprooted = [0 \<mapsto> False, 1 \<mapsto> False],
      m_disappeared = [0 \<mapsto> 0, 1 \<mapsto> 0],
      m_framecount = [0 \<mapsto> 2, 1 \<mapsto> 2]\<rparr>"

definition tracker3 :: ObjectTracker where
  "tracker3 =
     \<lparr>m_dist_tol = 2, m_max_dissapeared_frms = 2, m_min_framecount = 2, m_next_id = 2,
      m_id_list = [1, 0],
      m_active_objects = [0 \<mapsto> Obj 0 0 0 3, 1 \<mapsto> Obj 10 0 0 5],
      m_uprooted = [0 \<mapsto> False, 1 \<mapsto> False],
      m_disappeared = [0 \<mapsto> 0, 1 \<mapsto> 0],
      m_framecount = [0 \<mapsto> 1, 1 \<mapsto> 1]\<rparr>"

definition tracker4 :: ObjectTracker where
  "tracker4 =
     \<lparr>m_dist_tol = 2, m_max_dissapeared_frms = 2, m_min_framecount = 2, m_next_id = 2,
      m_id_list = [1, 0],
      m_active_objects = [0 \<mapsto> Obj 0 0 0 3, 1 \<mapsto> Obj 11 0 0 5],
      m_uprooted = [0 \<mapsto> False, 1 \<mapsto> False],
      m_disappeared = [0 \<mapsto> 0, 1 \<mapsto> 0],
      m_framecount = [0 \<mapsto> 2, 1 \<mapsto> 2]\<rparr>"

definition tracker_near :: ObjectTracker where
  "tracker_near =
     \<lparr>m_dist_tol = 2, m_max_dissapeared_frms = 2, m_min_framecount = 2, m_next_id = 2,
      m_id_list = [0, 1],
      m_active_objects = [0 \<mapsto> Obj 0 0 0 5, 1 \<mapsto> Obj 1 0 0 3],
      m_uprooted = [0 \<mapsto> False, 1 \<mapsto> False],
      m_disappeared = [0 \<mapsto> 0, 1 \<mapsto> 0],
      m_framecount = [0 \<mapsto> 1, 1 \<mapsto> 1]\<rparr>"

definition tracker_missed :: ObjectTracker where
  "tracker_missed =
     \<lparr>m_dist_tol = 2, m_max_dissapeared_frms = 2, m_min_framecount = 2, m_next_id = 1,
      m_id_list = [0],
      m_active_objects = [0 \<mapsto> Obj 0 0 0 5],
      m_uprooted = [0 \<mapsto> False],
      m_disappeared = [0 \<mapsto> 1],
      m_framecount = [0 \<mapsto> 0]\<rparr>"


definition tracker_missed2 :: ObjectTracker where
  "tracker_missed2 =
     \<lparr>m_dist_tol = 2, m_max_dissapeared_frms = 2, m_min_framecount = 2, m_next_id = 1,
      m_id_list = [0],
      m_active_objects = [0 \<mapsto> Obj 0 0 0 5],
      m_uprooted = [0 \<mapsto> False],
      m_disappeared = [0 \<mapsto> 2],
      m_framecount = [0 \<mapsto> 0]\<rparr>"

text \<open>What the matching loop does to the row \<open>r\<close> of an identity when the columns in \<open>U\<close>
  are claimed: with \<open>Some c\<close> it takes the column \<open>c\<close>, not claimed and below the
  tolerance; with \<open>None\<close> no column that is not claimed is below the tolerance and the
  identity is marked missing.\<close>

definition row_result ::
  "Distance \<Rightarrow> Distance list \<Rightarrow> nat list \<Rightarrow> Object list \<Rightarrow> nat set
     \<Rightarrow> Object option \<times> 32 word option \<times> 32 word option
     \<Rightarrow> Object option \<times> 32 word option \<times> 32 word option \<Rightarrow> nat option \<Rightarrow> bool" where
  "row_result tol drow cols new_objs U e e' copt \<longleftrightarrow>
     (case copt of
        None \<Rightarrow> (\<forall>c \<in> set cols. c \<notin> U \<longrightarrow> \<not> drow ! c < tol) \<and> missed_entry e e'
      | Some c \<Rightarrow> c \<in> set cols \<and> c \<notin> U \<and> drow ! c < tol \<and>
          e' = (Some (new_objs ! c), Some ((case fst (snd e) of None \<Rightarrow> 0 | Some v \<Rightarrow> v) + 1), snd (snd e)))"

text \<open>The order in which the general case of \<open>update\<close> goes through the rows: the value of
  \<open>active_obj_ids\<close> after the second sort.\<close>

definition resolution_order :: "arith \<Rightarrow> std_sort \<Rightarrow> ObjectTracker \<Rightarrow> Object list \<Rightarrow> nat list" where
  "resolution_order ar srt s new_objs =
     (let m = length (m_id_list s);
          n = length new_objs;
          D = dist_matrix ar s new_objs m n
      in active_obj_ids srt D (sorted_ids srt D m n) m)"

definition tracker5 :: ObjectTracker where
  "tracker5 =
     \<lparr>m_dist_tol = 2, m_max_dissapeared_frms = 2, m_min_framecount = 2, m_next_id = 2,
      m_id_list = [1, 0],
      m_active_objects = [0 \<mapsto> Obj 0 0 0 3, 1 \<mapsto> Obj 12 0 0 5],
      m_uprooted = [0 \<mapsto> True, 1 \<mapsto> True],
      m_disappeared = [0 \<mapsto> 0, 1 \<mapsto> 0],
      m_framecount = [0 \<mapsto> 3, 1 \<mapsto> 3]\<rparr>"

text \<open>The tracker a cleanup leaves when it has erased the only identity.\<close>

definition tracker_erased :: ObjectTracker where
  "tracker_erased =
     \<lparr>m_dist_tol = 2, m_max_dissapeared_frms = 2, m_min_framecount = 2, m_next_id = 1,
      m_id_list = [],
      m_active_objects = Map.empty,
      m_uprooted = Map.empty,
      m_disappeared = Map.empty,
      m_framecount = Map.empty\<rparr>"

section \<open>The library's sort\<close>

text \<open>
  What \<open>std::sort\<close> does with detections at equal distance is decided by the standard
  library, not by the tracker. The definitions of this section follow \<open>std::sort\<close> as GNU
  libstdc++ implements it (\<open>bits/stl_algo.h\<close> and \<open>bits/stl_heap.h\<close>), function by
  function and under the library's names without their underscores: an introsort that
  partitions ranges of more than 16 elements around a median of three, falls back to a
  heap sort when \<open>2 * lg n\<close> partitions were not enough, and finishes with an insertion
  sort. The vector is a list and an iterator an index into it. The loops the library
  calls unguarded can leave the vector when the comparison is not a strict weak order;
  that is undefined behaviour and \<open>None\<close> here.
\<close>

text \<open>A loop over the indices \<open>is\<close> whose body can fail.\<close>

fun for_each :: "(nat \<Rightarrow> 'a list \<Rightarrow> 'a list option) \<Rightarrow> nat list \<Rightarrow> 'a list \<Rightarrow> 'a list option" where
  "for_each body [] xs = Some xs"
| "for_each body (i # is) xs = (case body i xs of None \<Rightarrow> None | Some ys \<Rightarrow> for_each body is ys)"

definition iter_swap :: "nat \<Rightarrow> nat \<Rightarrow> 'a list \<Rightarrow> 'a list" where
  "iter_swap a b xs = xs[a := xs ! b, b := xs ! a]"

text \<open>\<open>std::__lg\<close>: the position of the highest bit set.\<close>

fun lg :: "nat \<Rightarrow> nat" where
  "lg n = (if n < 2 then 0 else Suc (lg (n div 2)))"

declare lg.simps [simp del]

text \<open>\<open>__unguarded_linear_insert(last, comp)\<close> shifts the elements before \<open>last\<close> that the
  value \<open>val\<close> of \<open>*last\<close> comes before, without a test for the beginning of the vector. The
  third argument is \<open>last\<close>, and \<open>next\<close> is one below it.\<close>

fun unguarded_linear_insert :: "('a \<Rightarrow> 'a \<Rightarrow> bool) \<Rightarrow> 'a \<Rightarrow> nat \<Rightarrow> 'a list \<Rightarrow> 'a list option" where
  "unguarded_linear_insert cmp val 0 xs = None"
| "unguarded_linear_insert cmp val (Suc next) xs =
     (if cmp val (xs ! next)
      then unguarded_linear_insert cmp val next (xs[Suc next := xs ! next])
      else Some (xs[Suc next := val]))"

text \<open>\<open>std::move_backward(first, i, i + 1)\<close> and the two branches of the loop body of
  \<open>__insertion_sort\<close>.\<close>

definition move_backward :: "nat \<Rightarrow> nat \<Rightarrow> 'a list \<Rightarrow> 'a list" where
  "move_backward first i xs = take (Suc first) xs @ take (i - first) (drop first xs) @ drop (Suc i) xs"

definition insertion_sort_step :: "('a \<Rightarrow> 'a \<Rightarrow> bool) \<Rightarrow> nat \<Rightarrow> nat \<Rightarrow> 'a list \<Rightarrow> 'a list option" where
  "insertion_sort_step cmp first i xs =
     (if cmp (xs ! i) (xs ! first)
      then (let val = xs ! i in Some ((move_backward first i xs)[first := val]))
      else unguarded_linear_insert cmp (xs ! i) i xs)"

definition gnu_insertion_sort :: "('a \<Rightarrow> 'a \<Rightarrow> bool) \<Rightarrow> nat \<Rightarrow> nat \<Rightarrow> 'a list \<Rightarrow> 'a list option" where
  "gnu_insertion_sort cmp first lst xs =
     (if first = lst then Some xs
      else for_each (insertion_sort_step cmp first) [Suc first..<lst] xs)"

definition unguarded_insertion_sort :: "('a \<Rightarrow> 'a \<Rightarrow> bool) \<Rightarrow> nat \<Rightarrow> nat \<Rightarrow> 'a list \<Rightarrow> 'a list option" where
  "unguarded_insertion_sort cmp first lst xs =
     for_each (\<lambda>i ys. unguarded_linear_insert cmp (ys ! i) i ys) [first..<lst] xs"

definition S_threshold :: nat where
  "S_threshold = 16"

definition final_insertion_sort :: "('a \<Rightarrow> 'a \<Rightarrow> bool) \<Rightarrow> nat \<Rightarrow> nat \<Rightarrow> 'a list \<Rightarrow> 'a list option" where
  "final_insertion_sort cmp first lst xs =
     (if lst - first > S_threshold
      then (case gnu_insertion_sort cmp first (first + S_threshold) xs of
              None \<Rightarrow> None
            | Some ys \<Rightarrow> unguarded_insertion_sort cmp (first + S_threshold) lst ys)
      else gnu_insertion_sort cmp first lst xs)"

definition move_median_to_first ::
  "('a \<Rightarrow> 'a \<Rightarrow> bool) \<Rightarrow> nat \<Rightarrow> nat \<Rightarrow> nat \<Rightarrow> nat \<Rightarrow> 'a list \<Rightarrow> 'a list" where
  "move_median_to_first cmp result a b c xs =
     (if cmp (xs ! a) (xs ! b)
      then (if cmp (xs ! b) (xs ! c) then iter_swap result b xs
            else if cmp (xs ! a) (xs ! c) then iter_swap result c xs
            else iter_swap result a xs)
      else if cmp (xs ! a) (xs ! c) then iter_swap result a xs
      else if cmp (xs ! b) (xs ! c) then iter_swap result c xs
      else iter_swap result b xs)"

text \<open>The two inner loops of \<open>__unguarded_partition\<close>: \<open>while (comp(first, pivot)) ++first\<close>
  and \<open>while (comp(pivot, last)) --last\<close>, each yielding the index it stops at.\<close>

definition scan_up :: "('a \<Rightarrow> 'a \<Rightarrow> bool) \<Rightarrow> 'a list \<Rightarrow> nat \<Rightarrow> nat \<Rightarrow> nat option" where
  "scan_up cmp xs pivot first = find (\<lambda>i. \<not> cmp (xs ! i) (xs ! pivot)) [first..<length xs]"

definition scan_down :: "('a \<Rightarrow> 'a \<Rightarrow> bool) \<Rightarrow> 'a list \<Rightarrow> nat \<Rightarrow> nat \<Rightarrow> nat option" where
  "scan_down cmp xs pivot lst = find (\<lambda>i. \<not> cmp (xs ! pivot) (xs ! i)) (rev [0..<Suc lst])"

function unguarded_partition ::
  "('a \<Rightarrow> 'a \<Rightarrow> bool) \<Rightarrow> nat \<Rightarrow> nat \<Rightarrow> nat \<Rightarrow> 'a list \<Rightarrow> (nat \<times> 'a list) option" where
  "unguarded_partition cmp pivot first lst xs =
     (case scan_up cmp xs pivot first of
        None \<Rightarrow> None
      | Some f \<Rightarrow>
          (if lst = 0 then None
           else (case scan_down cmp xs pivot (lst - 1) of
                   None \<Rightarrow> None
                 | Some l \<Rightarrow>
                     (if \<not> f < l then Some (f, xs)
                      else unguarded_partition cmp pivot (Suc f) l (iter_swap f l xs)))))"
  by pat_completeness auto
termination
  by (relation "measure (\<lambda>(cmp, pivot, first, lst, xs). lst)")
     (auto simp: scan_down_def find_Some_iff rev_nth split: if_splits)

declare unguarded_partition.simps [simp del]

definition unguarded_partition_pivot ::
  "('a \<Rightarrow> 'a \<Rightarrow> bool) \<Rightarrow> nat \<Rightarrow> nat \<Rightarrow> 'a list \<Rightarrow> (nat \<times> 'a list) option" where
  "unguarded_partition_pivot cmp first lst xs =
     (let mid = first + (lst - first) div 2
      in unguarded_partition cmp first (first + 1) lst
           (move_median_to_first cmp first (first + 1) mid (lst - 1) xs))"


text \<open>The heap operations of \<open>bits/stl_heap.h\<close>; \<open>first\<close> is the index of the root and all other
  indices are relative to it.\<close>

function push_heap_loop ::
  "('a \<Rightarrow> 'a \<Rightarrow> bool) \<Rightarrow> nat \<Rightarrow> nat \<Rightarrow> nat \<Rightarrow> 'a \<Rightarrow> 'a list \<Rightarrow> 'a list" where
  "push_heap_loop cmp first holeIndex topIndex val xs =
     (let parent = (holeIndex - 1) div 2
      in if holeIndex > topIndex \<and> cmp (xs ! (first + parent)) val
         then push_heap_loop cmp first parent topIndex val (xs[first + holeIndex := xs ! (first + parent)])
         else xs[first + holeIndex := val])"
  by pat_completeness auto
termination
  by (relation "measure (\<lambda>(cmp, first, holeIndex, topIndex, val, xs). holeIndex)") auto

declare push_heap_loop.simps [simp del]

function adjust_heap_loop ::
  "('a \<Rightarrow> 'a \<Rightarrow> bool) \<Rightarrow> nat \<Rightarrow> nat \<Rightarrow> nat \<Rightarrow> nat \<Rightarrow> 'a list \<Rightarrow> nat \<times> nat \<times> 'a list" where
  "adjust_heap_loop cmp first len holeIndex secondChild xs =
     (if secondChild < (len - 1) div 2
      then (let sc = 2 * (secondChild + 1);
                sc = (if cmp (xs ! (first + sc)) (xs ! (first + (sc - 1))) then sc - 1 else sc)
            in adjust_heap_loop cmp first len sc sc (xs[first + holeIndex := xs ! (first + sc)]))
      else (holeIndex, secondChild, xs))"
  by pat_completeness auto
termination
  by (relation "measure (\<lambda>(cmp, first, len, holeIndex, secondChild, xs). len - secondChild)")
     (auto simp: Let_def)

declare adjust_heap_loop.simps [simp del]

definition adjust_heap ::
  "('a \<Rightarrow> 'a \<Rightarrow> bool) \<Rightarrow> nat \<Rightarrow> nat \<Rightarrow> nat \<Rightarrow> 'a \<Rightarrow> 'a list \<Rightarrow> 'a list" where
  "adjust_heap cmp first holeIndex len val xs =
     (let topIndex = holeIndex;
          (h, sc, ys) = adjust_heap_loop cmp first len holeIndex holeIndex xs;
          (h, ys) = (if len mod 2 = 0 \<and> sc = (len - 2) div 2
                     then (let sc = 2 * (sc + 1)
                           in (sc - 1, ys[first + h := ys ! (first + (sc - 1))]))
                     else (h, ys))
      in push_heap_loop cmp first h topIndex val ys)"

fun make_heap_loop ::
  "('a \<Rightarrow> 'a \<Rightarrow> bool) \<Rightarrow> nat \<Rightarrow> nat \<Rightarrow> nat \<Rightarrow> 'a list \<Rightarrow> 'a list" where
  "make_heap_loop cmp first len 0 xs = adjust_heap cmp first 0 len (xs ! first) xs"
| "make_heap_loop cmp first len (Suc parent) xs =
     make_heap_loop cmp first len parent
       (adjust_heap cmp first (Suc parent) len (xs ! (first + Suc parent)) xs)"

definition make_heap :: "('a \<Rightarrow> 'a \<Rightarrow> bool) \<Rightarrow> nat \<Rightarrow> nat \<Rightarrow> 'a list \<Rightarrow> 'a list" where
  "make_heap cmp first lst xs =
     (if lst - first < 2 then xs
      else (let len = lst - first in make_heap_loop cmp first len ((len - 2) div 2) xs))"

definition pop_heap ::
  "('a \<Rightarrow> 'a \<Rightarrow> bool) \<Rightarrow> nat \<Rightarrow> nat \<Rightarrow> nat \<Rightarrow> 'a list \<Rightarrow> 'a list" where
  "pop_heap cmp first lst result xs =
     (let val = xs ! result
      in adjust_heap cmp first 0 (lst - first) val (xs[result := xs ! first]))"

definition heap_select ::
  "('a \<Rightarrow> 'a \<Rightarrow> bool) \<Rightarrow> nat \<Rightarrow> nat \<Rightarrow> nat \<Rightarrow> 'a list \<Rightarrow> 'a list" where
  "heap_select cmp first middle lst xs =
     fold (\<lambda>i ys. if cmp (ys ! i) (ys ! first) then pop_heap cmp first middle i ys else ys)
       [middle..<lst] (make_heap cmp first middle xs)"

definition sort_heap :: "('a \<Rightarrow> 'a \<Rightarrow> bool) \<Rightarrow> nat \<Rightarrow> nat \<Rightarrow> 'a list \<Rightarrow> 'a list" where
  "sort_heap cmp first lst xs = fold (\<lambda>l ys. pop_heap cmp first l l ys) (rev [Suc first..<lst]) xs"

definition partial_sort ::
  "('a \<Rightarrow> 'a \<Rightarrow> bool) \<Rightarrow> nat \<Rightarrow> nat \<Rightarrow> nat \<Rightarrow> 'a list \<Rightarrow> 'a list" where
  "partial_sort cmp first middle lst xs = sort_heap cmp first middle (heap_select cmp first middle lst xs)"

fun introsort_loop ::
  "('a \<Rightarrow> 'a \<Rightarrow> bool) \<Rightarrow> nat \<Rightarrow> nat \<Rightarrow> nat \<Rightarrow> 'a list \<Rightarrow> 'a list option" where
  "introsort_loop cmp 0 first lst xs =
     (if lst - first > S_threshold then Some (partial_sort cmp first lst lst xs) else Some xs)"
| "introsort_loop cmp (Suc depth_limit) first lst xs =
     (if lst - first > S_threshold
      then (case unguarded_partition_pivot cmp first lst xs of
              None \<Rightarrow> None
            | Some (cut_i, ys) \<Rightarrow>
                (case introsort_loop cmp depth_limit cut_i lst ys of
                   None \<Rightarrow> None
                 | Some zs \<Rightarrow> introsort_loop cmp depth_limit first cut_i zs))
      else Some xs)"

text \<open>\<open>std::sort(first, last, comp)\<close> on the whole vector.\<close>

definition gnu_sort :: "('a \<Rightarrow> 'a \<Rightarrow> bool) \<Rightarrow> 'a list \<Rightarrow> 'a list option" where
  "gnu_sort cmp xs =
     (if xs = [] then Some xs
      else (case introsort_loop cmp (lg (length xs) * 2) 0 (length xs) xs of
              None \<Rightarrow> None
            | Some ys \<Rightarrow> final_insertion_sort cmp 0 (length xs) ys))"

subsection \<open>Invariants of the heap operations\<close>

text \<open>
  The heap of \<open>len\<close> elements starts at the index \<open>first\<close>; the node \<open>c\<close> has the parent
  \<open>heap_parent c\<close>. \<open>heap_except key first len k H xs\<close> says that no node is above its parent
  in the order of \<open>key\<close>, for the parents from \<open>k\<close> on and the nodes not in \<open>H\<close>. \<open>hole_inv\<close> is what
  \<open>__adjust_heap\<close> and \<open>__push_heap\<close> keep while they move the hole \<open>h\<close> through the subtree of
  \<open>k\<close>: the heap order but at the hole, the children of the hole not above its parent, the
  elements outside the heap as in \<open>xs0\<close>, and the elements of \<open>xs0\<close> with \<open>val\<close> for the one at \<open>k\<close>
  once \<open>val\<close> is written to the hole.
\<close>

definition heap_parent :: "nat \<Rightarrow> nat" where
  "heap_parent c = (c - 1) div 2"

definition heap_except :: "('a \<Rightarrow> real) \<Rightarrow> nat \<Rightarrow> nat \<Rightarrow> nat \<Rightarrow> nat set \<Rightarrow> 'a list \<Rightarrow> bool" where
  "heap_except key first len k H xs \<longleftrightarrow>
     (\<forall>c. 0 < c \<and> c < len \<and> k \<le> heap_parent c \<and> c \<notin> H \<and> heap_parent c \<notin> H
          \<longrightarrow> key (xs ! (first + c)) \<le> key (xs ! (first + heap_parent c)))"

fun in_subtree :: "nat \<Rightarrow> nat \<Rightarrow> bool" where
  "in_subtree k h = (if h \<le> k then h = k else in_subtree k ((h - 1) div 2))"

declare in_subtree.simps [simp del]

definition hole_inv ::
  "('a \<Rightarrow> real) \<Rightarrow> nat \<Rightarrow> nat \<Rightarrow> nat \<Rightarrow> 'a \<Rightarrow> 'a list \<Rightarrow> nat \<Rightarrow> 'a list \<Rightarrow> bool" where
  "hole_inv key first len k val xs0 h xs \<longleftrightarrow>
     h < len \<and> in_subtree k h \<and> heap_except key first len k {h} xs \<and>
     (h \<noteq> k \<longrightarrow> (\<forall>c. 0 < c \<and> c < len \<and> heap_parent c = h
                     \<longrightarrow> key (xs ! (first + c)) \<le> key (xs ! (first + heap_parent h)))) \<and>
     length xs = length xs0 \<and> (\<forall>i. i < first \<or> first + len \<le> i \<longrightarrow> xs ! i = xs0 ! i) \<and>
     mset (xs[first + h := val]) = mset (xs0[first + k := val])"

text \<open>One row of \<open>sorted_ids\<close>, as \<open>rank_row\<close>, with the sort of libstdc++.\<close>

definition rank_row_libstdcxx :: "Distance list \<Rightarrow> nat \<Rightarrow> nat list option" where
  "rank_row_libstdcxx drow n = gnu_sort (\<lambda>a b. drow ! a < drow ! b) [0..<n]"

text \<open>Seventeen detections, all at distance 5 of the origin.\<close>

definition ring17 :: "Object list" where
  "ring17 =
     [Obj 5 0 0 1, Obj (-5) 0 0 1, Obj 0 5 0 1, Obj 0 (-5) 0 1, Obj 0 0 5 1, Obj 0 0 (-5) 1,
      Obj 3 4 0 1, Obj 4 3 0 1, Obj (-3) 4 0 1, Obj (-4) 3 0 1, Obj 3 (-4) 0 1, Obj 4 (-3) 0 1,
      Obj (-3) (-4) 0 1, Obj (-4) (-3) 0 1, Obj 3 0 4 1, Obj 4 0 3 1, Obj 0 3 4 1]"


section \<open>Lemmas\<close>

subsection \<open>Maps, the invariant and registration\<close>

lemma touch_present: "k \<in> dom m \<Longrightarrow> touch d m k = m"
  by (auto simp: touch_def)

lemma map_at_Some: "m k = Some v \<Longrightarrow> map_at d m k = v"
  by (simp add: map_at_def)

lemma fold_touch_present:
  "\<forall>i \<in> set xs. f i \<in> dom m \<Longrightarrow> fold (\<lambda>i mp. touch d mp (f i)) xs m = m"
  by (induction xs) (simp_all add: touch_present)

lemma inv_finite: "tracker_inv s \<Longrightarrow> finite (dom (m_active_objects s))"
  unfolding tracker_inv_def by (metis List.finite_set)

lemma set_keys: "finite (dom m) \<Longrightarrow> set (keys m) = dom m"
  by (simp add: keys_def)

lemma sorted_keys: "sorted (keys m)"
  by (simp add: keys_def)

lemma distinct_keys: "distinct (keys m)"
  by (simp add: keys_def)

lemma inv_length: "tracker_inv s \<Longrightarrow> card (dom (m_active_objects s)) = length (m_id_list s)"
  unfolding tracker_inv_def by (metis distinct_card)

lemma inv_new: "tracker_inv (ObjectTracker_new i tol mx mn)"
  by (simp add: tracker_inv_def ObjectTracker_new_def)

lemma register_scan_present:
  "set ids \<subseteq> dom m \<Longrightarrow> snd (register_scan gt obj ids m) = m \<and> fst (register_scan gt obj ids m) \<le> length ids"
  by (induction ids) (auto simp: touch_present split: prod.splits)

lemma register_object_inv_eq:
  assumes "tracker_inv s"
  shows "register_object gt s obj =
     (m_next_id s,
      s\<lparr>m_id_list := take (fst (register_scan gt obj (m_id_list s) (m_active_objects s))) (m_id_list s)
                      @ m_next_id s # drop (fst (register_scan gt obj (m_id_list s) (m_active_objects s))) (m_id_list s),
        m_active_objects := (m_active_objects s)(m_next_id s \<mapsto> obj),
        m_uprooted := (m_uprooted s)(m_next_id s \<mapsto> False),
        m_disappeared := (m_disappeared s)(m_next_id s \<mapsto> 0),
        m_framecount := (m_framecount s)(m_next_id s \<mapsto> 1),
        m_next_id := Suc (m_next_id s)\<rparr>)"
proof -
  have "set (m_id_list s) \<subseteq> dom (m_active_objects s)"
    using assms by (simp add: tracker_inv_def)
  from register_scan_present[OF this, of gt obj] show ?thesis
    by (cases "register_scan gt obj (m_id_list s) (m_active_objects s)") (simp add: register_object_def)
qed

lemma set_take_drop: "set (take p xs) \<union> set (drop p xs) = set xs"
  by (metis append_take_drop_id set_append)

lemma set_insert_at: "set (take p xs @ a # drop p xs) = insert a (set xs)"
  using set_take_drop[of p xs] by auto

lemma distinct_insert_at: "distinct xs \<Longrightarrow> a \<notin> set xs \<Longrightarrow> distinct (take p xs @ a # drop p xs)"
proof -
  assume d: "distinct xs" and a: "a \<notin> set xs"
  have "distinct (take p xs @ drop p xs)" using d by simp
  then have "distinct (take p xs) \<and> distinct (drop p xs) \<and> set (take p xs) \<inter> set (drop p xs) = {}"
    unfolding distinct_append .
  moreover have "a \<notin> set (take p xs)" "a \<notin> set (drop p xs)"
    using a by (auto dest: in_set_takeD in_set_dropD)
  ultimately show ?thesis by auto
qed

lemma inv_register: 
  assumes "tracker_inv s" shows "tracker_inv (snd (register_object gt s obj))"
proof -
  define p where "p = fst (register_scan gt obj (m_id_list s) (m_active_objects s))"
  define s' where "s' = snd (register_object gt s obj)"
  have fresh: "m_next_id s \<notin> set (m_id_list s)"
    using assms by (auto simp: tracker_inv_def)
  have ids: "m_id_list s' = take p (m_id_list s) @ m_next_id s # drop p (m_id_list s)"
    and ao: "m_active_objects s' = (m_active_objects s)(m_next_id s \<mapsto> obj)"
    and up: "m_uprooted s' = (m_uprooted s)(m_next_id s \<mapsto> False)"
    and di: "m_disappeared s' = (m_disappeared s)(m_next_id s \<mapsto> 0)"
    and fc: "m_framecount s' = (m_framecount s)(m_next_id s \<mapsto> 1)"
    and nx: "m_next_id s' = Suc (m_next_id s)"
    by (simp_all add: s'_def p_def register_object_inv_eq[OF assms])
  have "distinct (m_id_list s')"
    unfolding ids using assms fresh by (intro distinct_insert_at) (simp_all add: tracker_inv_def)
  moreover have "set (m_id_list s') = dom (m_active_objects s')"
    unfolding ids ao set_insert_at using assms by (simp add: tracker_inv_def)
  moreover have "dom (m_uprooted s') = dom (m_active_objects s')"
    "dom (m_disappeared s') = dom (m_active_objects s')"
    "dom (m_framecount s') = dom (m_active_objects s')"
    unfolding ao up di fc using assms by (simp_all add: tracker_inv_def)
  moreover have "\<forall>k \<in> dom (m_active_objects s'). k < m_next_id s'"
    unfolding ao nx using assms by (auto simp: tracker_inv_def less_Suc_eq)
  ultimately show ?thesis
    unfolding s'_def tracker_inv_def by blast
qed

lemma inv_fin_dis: "tracker_inv s \<Longrightarrow> finite (dom (m_disappeared s))"
  using inv_finite by (simp add: tracker_inv_def)

subsection \<open>matching loop\<close>

lemma match_row_frame:
  "m_id_list (fst (match_row D ids new_objs r st)) = m_id_list (fst st)"
  "m_uprooted (fst (match_row D ids new_objs r st)) = m_uprooted (fst st)"
  "m_next_id (fst (match_row D ids new_objs r st)) = m_next_id (fst st)"
  "m_dist_tol (fst (match_row D ids new_objs r st)) = m_dist_tol (fst st)"
  "m_max_dissapeared_frms (fst (match_row D ids new_objs r st)) = m_max_dissapeared_frms (fst st)"
  "m_min_framecount (fst (match_row D ids new_objs r st)) = m_min_framecount (fst st)"
  by (cases st; simp add: match_row_def mark_found_def mark_missing_def split: option.splits)+

lemma fold_match_frame:
  "m_id_list (fst (fold (match_row D ids new_objs) rows st)) = m_id_list (fst st)"
  "m_uprooted (fst (fold (match_row D ids new_objs) rows st)) = m_uprooted (fst st)"
  "m_next_id (fst (fold (match_row D ids new_objs) rows st)) = m_next_id (fst st)"
  "m_dist_tol (fst (fold (match_row D ids new_objs) rows st)) = m_dist_tol (fst st)"
  "m_max_dissapeared_frms (fst (fold (match_row D ids new_objs) rows st)) = m_max_dissapeared_frms (fst st)"
  "m_min_framecount (fst (fold (match_row D ids new_objs) rows st)) = m_min_framecount (fst st)"
  by (induction rows arbitrary: st; simp add: match_row_frame)+

lemma match_row_other:
  "k \<noteq> m_id_list (fst st) ! r \<Longrightarrow> entry (fst (match_row D ids new_objs r st)) k = entry (fst st) k"
  by (cases st) (simp add: match_row_def entry_def mark_found_def mark_missing_def split: option.splits)

lemma fold_match_other:
  "\<forall>r \<in> set rows. m_id_list (fst st) ! r \<noteq> k \<Longrightarrow>
   entry (fst (fold (match_row D ids new_objs) rows st)) k = entry (fst st) k"
proof (induction rows arbitrary: st)
  case Nil
  then show ?case by simp
next
  case (Cons r rows)
  have "entry (fst (fold (match_row D ids new_objs) rows (match_row D ids new_objs r st))) k
        = entry (fst (match_row D ids new_objs r st)) k"
    using Cons.prems by (intro Cons.IH) (simp add: match_row_frame)
  also have "\<dots> = entry (fst st) k"
    using Cons.prems by (intro match_row_other) auto
  finally show ?case by simp
qed

lemma match_row_outcome:
  "found_entry (m_dist_tol (fst st)) (D ! r) (ids ! r) new_objs
       (entry (fst st) (m_id_list (fst st) ! r)) (entry (fst (match_row D ids new_objs r st)) (m_id_list (fst st) ! r))
   \<or> missed_entry (entry (fst st) (m_id_list (fst st) ! r))
        (entry (fst (match_row D ids new_objs r st)) (m_id_list (fst st) ! r))"
proof (cases st)
  case (Pair s used)
  show ?thesis
  proof (cases "find (\<lambda>c. c \<notin> used \<and> D ! r ! c < m_dist_tol s) (ids ! r)")
    case None
    then show ?thesis
      by (simp add: Pair match_row_def missed_entry_def entry_def mark_missing_def map_at_def)
  next
    case (Some c)
    then have "c \<in> set (ids ! r)" "D ! r ! c < m_dist_tol s"
      by (auto simp: find_Some_iff)
    then have "found_entry (m_dist_tol s) (D ! r) (ids ! r) new_objs
       (entry s (m_id_list s ! r)) (entry (mark_found s (m_id_list s ! r) (new_objs ! c)) (m_id_list s ! r))"
      by (auto simp: found_entry_def entry_def mark_found_def map_at_def)
    then show ?thesis
      by (simp add: Pair match_row_def Some)
  qed
qed

lemma fold_match_outcome:
  assumes "distinct rows" "\<forall>r \<in> set rows. r < length (m_id_list (fst st))"
    "distinct (m_id_list (fst st))" "r \<in> set rows"
  shows "found_entry (m_dist_tol (fst st)) (D ! r) (ids ! r) new_objs
       (entry (fst st) (m_id_list (fst st) ! r))
       (entry (fst (fold (match_row D ids new_objs) rows st)) (m_id_list (fst st) ! r))
   \<or> missed_entry (entry (fst st) (m_id_list (fst st) ! r))
        (entry (fst (fold (match_row D ids new_objs) rows st)) (m_id_list (fst st) ! r))"
  using assms
proof (induction rows arbitrary: st)
  case Nil
  then show ?case by simp
next
  case (Cons a rows)
  let ?st1 = "match_row D ids new_objs a st"
  let ?k = "m_id_list (fst st) ! r"
  have ids1: "m_id_list (fst ?st1) = m_id_list (fst st)" by (simp add: match_row_frame)
  have tol1: "m_dist_tol (fst ?st1) = m_dist_tol (fst st)" by (simp add: match_row_frame)
  have rng: "r < length (m_id_list (fst st))" using Cons.prems by auto
  show ?case
  proof (cases "r = a")
    case True
    have "\<forall>r' \<in> set rows. m_id_list (fst ?st1) ! r' \<noteq> ?k"
    proof
      fix r' assume r': "r' \<in> set rows"
      then have "r' \<noteq> r" "r' < length (m_id_list (fst st))" using Cons.prems True by auto
      then show "m_id_list (fst ?st1) ! r' \<noteq> ?k"
        using Cons.prems(3) rng by (simp add: ids1 nth_eq_iff_index_eq)
    qed
    then have "entry (fst (fold (match_row D ids new_objs) rows ?st1)) ?k = entry (fst ?st1) ?k"
      by (rule fold_match_other)
    with match_row_outcome[of st D a ids new_objs] True show ?thesis by simp
  next
    case False
    then have rin: "r \<in> set rows" using Cons.prems by auto
    have "a \<noteq> r" "a < length (m_id_list (fst st))" using False Cons.prems by auto
    then have "?k \<noteq> m_id_list (fst st) ! a"
      using Cons.prems(3) rng by (simp add: nth_eq_iff_index_eq)
    then have e1: "entry (fst ?st1) ?k = entry (fst st) ?k" by (rule match_row_other)
    have "found_entry (m_dist_tol (fst ?st1)) (D ! r) (ids ! r) new_objs
       (entry (fst ?st1) (m_id_list (fst ?st1) ! r))
       (entry (fst (fold (match_row D ids new_objs) rows ?st1)) (m_id_list (fst ?st1) ! r))
     \<or> missed_entry (entry (fst ?st1) (m_id_list (fst ?st1) ! r))
        (entry (fst (fold (match_row D ids new_objs) rows ?st1)) (m_id_list (fst ?st1) ! r))"
      using Cons.prems rin by (intro Cons.IH) (simp_all add: ids1)
    then show ?thesis by (simp add: ids1 tol1 e1)
  qed
qed

subsection \<open>n = 0\<close>

lemma mark_missing_frame:
  "m_id_list (mark_missing s k) = m_id_list s"
  "m_uprooted (mark_missing s k) = m_uprooted s"
  "m_active_objects (mark_missing s k) = m_active_objects s"
  "m_next_id (mark_missing s k) = m_next_id s"
  "m_dist_tol (mark_missing s k) = m_dist_tol s"
  "m_max_dissapeared_frms (mark_missing s k) = m_max_dissapeared_frms s"
  "m_min_framecount (mark_missing s k) = m_min_framecount s"
  by (simp_all add: mark_missing_def)

lemma fold_mark_missing_frame:
  "m_id_list (fold (\<lambda>k t. mark_missing t k) ks s) = m_id_list s"
  "m_uprooted (fold (\<lambda>k t. mark_missing t k) ks s) = m_uprooted s"
  "m_active_objects (fold (\<lambda>k t. mark_missing t k) ks s) = m_active_objects s"
  "m_next_id (fold (\<lambda>k t. mark_missing t k) ks s) = m_next_id s"
  "m_dist_tol (fold (\<lambda>k t. mark_missing t k) ks s) = m_dist_tol s"
  "m_max_dissapeared_frms (fold (\<lambda>k t. mark_missing t k) ks s) = m_max_dissapeared_frms s"
  "m_min_framecount (fold (\<lambda>k t. mark_missing t k) ks s) = m_min_framecount s"
  by (induction ks arbitrary: s; simp add: mark_missing_frame)+

lemma fold_mark_missing_other:
  "k \<notin> set ks \<Longrightarrow> entry (fold (\<lambda>k t. mark_missing t k) ks s) k = entry s k"
  by (induction ks arbitrary: s) (auto simp: entry_def mark_missing_def)

lemma fold_mark_missing_entry:
  "distinct ks \<Longrightarrow> k \<in> set ks \<Longrightarrow> missed_entry (entry s k) (entry (fold (\<lambda>k t. mark_missing t k) ks s) k)"
proof (induction ks arbitrary: s)
  case Nil
  then show ?case by simp
next
  case (Cons a ks)
  show ?case
  proof (cases "k = a")
    case True
    then have "k \<notin> set ks" using Cons.prems by simp
    then have "entry (fold (\<lambda>k t. mark_missing t k) ks (mark_missing s a)) k = entry (mark_missing s a) k"
      by (rule fold_mark_missing_other)
    then show ?thesis using True
      by (simp add: missed_entry_def entry_def mark_missing_def map_at_def)
  next
    case False
    then have "missed_entry (entry (mark_missing s a) k) (entry (fold (\<lambda>k t. mark_missing t k) ks (mark_missing s a)) k)"
      using Cons.prems by (intro Cons.IH) auto
    moreover have "entry (mark_missing s a) k = entry s k"
      using False by (simp add: entry_def mark_missing_def)
    ultimately show ?thesis by simp
  qed
qed

lemma missed_entry_dom:
  "missed_entry (entry s k) (entry s' k) \<Longrightarrow>
     (k \<in> dom (m_active_objects s') \<longleftrightarrow> k \<in> dom (m_active_objects s)) \<and>
     k \<in> dom (m_framecount s') \<and> k \<in> dom (m_disappeared s')"
  by (simp add: missed_entry_def entry_def domIff)

lemma found_entry_dom:
  "found_entry tol drow cols new_objs (entry s k) (entry s' k) \<Longrightarrow>
     k \<in> dom (m_active_objects s') \<and> k \<in> dom (m_framecount s') \<and>
     (k \<in> dom (m_disappeared s') \<longleftrightarrow> k \<in> dom (m_disappeared s))"
  by (clarsimp simp add: found_entry_def entry_def domIff)

lemma entry_eq_dom:
  "entry s' k = entry s k \<Longrightarrow>
     (k \<in> dom (m_active_objects s') \<longleftrightarrow> k \<in> dom (m_active_objects s)) \<and>
     (k \<in> dom (m_framecount s') \<longleftrightarrow> k \<in> dom (m_framecount s)) \<and>
     (k \<in> dom (m_disappeared s') \<longleftrightarrow> k \<in> dom (m_disappeared s))"
  by (simp add: entry_def domIff)

text \<open>An update that changes only entries of present identities keeps the invariant.\<close>

lemma inv_entries:
  assumes "tracker_inv s"
    and "m_id_list s' = m_id_list s" "m_uprooted s' = m_uprooted s" "m_next_id s' = m_next_id s"
    and "\<And>k. k \<in> dom (m_active_objects s) \<Longrightarrow>
           missed_entry (entry s k) (entry s' k) \<or> (\<exists>tol drow cols new_objs. found_entry tol drow cols new_objs (entry s k) (entry s' k))"
    and "\<And>k. k \<notin> dom (m_active_objects s) \<Longrightarrow> entry s' k = entry s k"
  shows "tracker_inv s'"
proof -
  have d: "\<And>k. (k \<in> dom (m_active_objects s') \<longleftrightarrow> k \<in> dom (m_active_objects s)) \<and>
     (k \<in> dom (m_framecount s') \<longleftrightarrow> k \<in> dom (m_active_objects s)) \<and>
     (k \<in> dom (m_disappeared s') \<longleftrightarrow> k \<in> dom (m_active_objects s))"
  proof -
    fix k
    have ds: "dom (m_framecount s) = dom (m_active_objects s)" "dom (m_disappeared s) = dom (m_active_objects s)"
      using assms(1) by (simp_all add: tracker_inv_def)
    show "(k \<in> dom (m_active_objects s') \<longleftrightarrow> k \<in> dom (m_active_objects s)) \<and>
     (k \<in> dom (m_framecount s') \<longleftrightarrow> k \<in> dom (m_active_objects s)) \<and>
     (k \<in> dom (m_disappeared s') \<longleftrightarrow> k \<in> dom (m_active_objects s))"
    proof (cases "k \<in> dom (m_active_objects s)")
      case True
      from assms(5)[OF True] show ?thesis
        using missed_entry_dom[of s k s'] found_entry_dom[of _ _ _ _ s k s'] True ds by blast
    next
      case False
      from assms(6)[OF False] show ?thesis
        using entry_eq_dom[of s' k s] False ds by blast
    qed
  qed
  then have "dom (m_active_objects s') = dom (m_active_objects s)"
    "dom (m_framecount s') = dom (m_active_objects s)"
    "dom (m_disappeared s') = dom (m_active_objects s)"
    by blast+
  then show ?thesis
    using assms(1-4) by (simp add: tracker_inv_def)
qed

lemma inv_keys_dis: "tracker_inv s \<Longrightarrow> set (keys (m_disappeared s)) = dom (m_active_objects s)"
  using inv_fin_dis[of s] by (simp add: set_keys tracker_inv_def)

lemma update_none_entry:
  assumes "tracker_inv s" "k \<in> dom (m_active_objects s)"
  shows "missed_entry (entry s k) (entry (update_none s) k)"
  unfolding update_none_def
  using assms inv_keys_dis[OF assms(1)] by (intro fold_mark_missing_entry) (simp_all add: distinct_keys)

lemma update_none_other:
  assumes "tracker_inv s" "k \<notin> dom (m_active_objects s)"
  shows "entry (update_none s) k = entry s k"
  unfolding update_none_def
  using assms inv_keys_dis[OF assms(1)] by (intro fold_mark_missing_other) simp

lemma update_none_frame:
  "m_id_list (update_none s) = m_id_list s"
  "m_uprooted (update_none s) = m_uprooted s"
  "m_active_objects (update_none s) = m_active_objects s"
  "m_next_id (update_none s) = m_next_id s"
  "m_dist_tol (update_none s) = m_dist_tol s"
  "m_max_dissapeared_frms (update_none s) = m_max_dissapeared_frms s"
  "m_min_framecount (update_none s) = m_min_framecount s"
  by (simp_all add: update_none_def fold_mark_missing_frame)

lemma inv_update_none: "tracker_inv s \<Longrightarrow> tracker_inv (update_none s)"
  by (rule inv_entries[where s = s]) (auto simp: update_none_frame update_none_entry update_none_other)

subsection \<open>registration of several objects\<close>

lemma register_fields:
  assumes "tracker_inv s"
  shows "m_next_id (snd (register_object gt s obj)) = Suc (m_next_id s)"
    and "m_dist_tol (snd (register_object gt s obj)) = m_dist_tol s"
    and "m_max_dissapeared_frms (snd (register_object gt s obj)) = m_max_dissapeared_frms s"
    and "m_min_framecount (snd (register_object gt s obj)) = m_min_framecount s"
    and "m_active_objects (snd (register_object gt s obj)) = (m_active_objects s)(m_next_id s \<mapsto> obj)"
    and "m_uprooted (snd (register_object gt s obj)) = (m_uprooted s)(m_next_id s \<mapsto> False)"
    and "m_disappeared (snd (register_object gt s obj)) = (m_disappeared s)(m_next_id s \<mapsto> 0)"
    and "m_framecount (snd (register_object gt s obj)) = (m_framecount s)(m_next_id s \<mapsto> 1)"
  by (simp_all add: register_object_inv_eq[OF assms])

lemma reg_all_simps:
  "reg_all gt [] s = s"
  "reg_all gt (obj # objs) s = reg_all gt objs (snd (register_object gt s obj))"
  by (simp_all add: reg_all_def)

lemma inv_reg_all: "tracker_inv s \<Longrightarrow> tracker_inv (reg_all gt objs s)"
  by (induction objs arbitrary: s) (simp_all add: reg_all_simps inv_register)

lemma reg_all_config:
  "tracker_inv s \<Longrightarrow> m_next_id (reg_all gt objs s) = m_next_id s + length objs"
  "tracker_inv s \<Longrightarrow> m_dist_tol (reg_all gt objs s) = m_dist_tol s"
  "tracker_inv s \<Longrightarrow> m_max_dissapeared_frms (reg_all gt objs s) = m_max_dissapeared_frms s"
  "tracker_inv s \<Longrightarrow> m_min_framecount (reg_all gt objs s) = m_min_framecount s"
  by (induction objs arbitrary: s; simp add: reg_all_simps inv_register register_fields)+

lemma reg_all_old:
  "tracker_inv s \<Longrightarrow> k < m_next_id s \<Longrightarrow>
     entry (reg_all gt objs s) k = entry s k \<and> m_uprooted (reg_all gt objs s) k = m_uprooted s k"
proof (induction objs arbitrary: s)
  case Nil
  then show ?case by (simp add: reg_all_simps)
next
  case (Cons a objs)
  let ?s1 = "snd (register_object gt s a)"
  have "entry (reg_all gt objs ?s1) k = entry ?s1 k \<and> m_uprooted (reg_all gt objs ?s1) k = m_uprooted ?s1 k"
    using Cons.prems by (intro Cons.IH) (simp_all add: inv_register register_fields)
  moreover have "entry ?s1 k = entry s k \<and> m_uprooted ?s1 k = m_uprooted s k"
    using Cons.prems by (simp add: entry_def register_fields)
  ultimately show ?case by (simp add: reg_all_simps)
qed

lemma reg_all_new:
  "tracker_inv s \<Longrightarrow> j < length objs \<Longrightarrow>
     entry (reg_all gt objs s) (m_next_id s + j) = (Some (objs ! j), Some 1, Some 0) \<and>
     m_uprooted (reg_all gt objs s) (m_next_id s + j) = Some False"
proof (induction objs arbitrary: s j)
  case Nil
  then show ?case by simp
next
  case (Cons a objs)
  let ?s1 = "snd (register_object gt s a)"
  have i1: "tracker_inv ?s1" using Cons.prems by (simp add: inv_register)
  have n1: "m_next_id ?s1 = Suc (m_next_id s)" using Cons.prems by (simp add: register_fields)
  show ?case
  proof (cases j)
    case 0
    have "entry (reg_all gt objs ?s1) (m_next_id s) = entry ?s1 (m_next_id s) \<and>
          m_uprooted (reg_all gt objs ?s1) (m_next_id s) = m_uprooted ?s1 (m_next_id s)"
      using i1 n1 by (intro reg_all_old) simp_all
    then show ?thesis
      using 0 Cons.prems by (simp add: reg_all_simps entry_def register_fields)
  next
    case (Suc j')
    then have "entry (reg_all gt objs ?s1) (m_next_id ?s1 + j') = (Some (objs ! j'), Some 1, Some 0) \<and>
     m_uprooted (reg_all gt objs ?s1) (m_next_id ?s1 + j') = Some False"
      using Cons.prems i1 by (intro Cons.IH) simp_all
    then show ?thesis using Suc n1 by (simp add: reg_all_simps)
  qed
qed

lemma reg_all_ge:
  "tracker_inv s \<Longrightarrow> m_next_id s + length objs \<le> k \<Longrightarrow>
     entry (reg_all gt objs s) k = entry s k \<and> m_uprooted (reg_all gt objs s) k = m_uprooted s k"
proof (induction objs arbitrary: s)
  case Nil
  then show ?case by (simp add: reg_all_simps)
next
  case (Cons a objs)
  let ?s1 = "snd (register_object gt s a)"
  have "entry (reg_all gt objs ?s1) k = entry ?s1 k \<and> m_uprooted (reg_all gt objs ?s1) k = m_uprooted ?s1 k"
    using Cons.prems by (intro Cons.IH) (simp_all add: inv_register register_fields)
  moreover have "entry ?s1 k = entry s k \<and> m_uprooted ?s1 k = m_uprooted s k"
    using Cons.prems by (simp add: entry_def register_fields)
  ultimately show ?case by (simp add: reg_all_simps)
qed

lemma reg_all_dom:
  assumes "tracker_inv s"
  shows "dom (m_active_objects (reg_all gt objs s))
           = dom (m_active_objects s) \<union> {m_next_id s ..< m_next_id s + length objs}"
proof (rule set_eqI)
  fix k
  have old: "\<forall>k \<in> dom (m_active_objects s). k < m_next_id s"
    using assms by (simp add: tracker_inv_def)
  consider "k < m_next_id s" | "m_next_id s \<le> k" "k < m_next_id s + length objs" | "m_next_id s + length objs \<le> k"
    by linarith
  then show "k \<in> dom (m_active_objects (reg_all gt objs s))
      \<longleftrightarrow> k \<in> dom (m_active_objects s) \<union> {m_next_id s ..< m_next_id s + length objs}"
  proof cases
    case 1
    with reg_all_old[OF assms 1, of gt objs] show ?thesis
      by (simp add: entry_def domIff)
  next
    case 2
    then obtain j where j: "k = m_next_id s + j" "j < length objs"
      by (metis le_iff_add nat_add_left_cancel_less)
    with reg_all_new[OF assms j(2), of gt] show ?thesis
      by (simp add: entry_def domIff)
  next
    case 3
    with reg_all_ge[OF assms 3, of gt] old show ?thesis
      by (auto simp add: entry_def domIff)
  qed
qed

lemma update_all_new_reg_all: "update_all_new gt s new_objs = reg_all gt new_objs s"
  by (simp add: update_all_new_def reg_all_def)

lemma fold_if_filter:
  "fold (\<lambda>x t. if P x then f (g x) t else t) xs s = fold f (map g (filter P xs)) s"
  by (induction xs arbitrary: s) simp_all

lemma register_unused_reg_all:
  "register_unused gt new_objs used cols s
     = reg_all gt (map (\<lambda>x. new_objs ! x) (filter (\<lambda>x. x \<notin> used) cols)) s"
  unfolding register_unused_def reg_all_def
  by (rule fold_if_filter[where f = "\<lambda>obj t. snd (register_object gt t obj)"])

subsection \<open>general case\<close>

lemma std_sort_mset:
  "std_sort_ok srt \<Longrightarrow> mset (srt (\<lambda>a b. (key :: nat \<Rightarrow> real) a < key b) xs) = mset xs"
  by (simp add: std_sort_ok_def)

lemma std_sort_sorted:
  "std_sort_ok srt \<Longrightarrow> sorted_wrt (\<lambda>a b. (key :: nat \<Rightarrow> real) a \<le> key b) (srt (\<lambda>a b. key a < key b) xs)"
  by (simp add: std_sort_ok_def)

lemma rank_row_mset: "std_sort_ok srt \<Longrightarrow> mset (rank_row srt drow n) = mset [0..<n]"
  unfolding rank_row_def by (rule std_sort_mset[where key = "\<lambda>a. drow ! a"])

lemma rank_row_set: "std_sort_ok srt \<Longrightarrow> set (rank_row srt drow n) = {0..<n}"
  using rank_row_mset[of srt drow n] by (metis set_mset_mset set_upt)

lemma active_obj_ids_mset: "std_sort_ok srt \<Longrightarrow> mset (active_obj_ids srt D ids m) = mset [0..<m]"
  unfolding active_obj_ids_def by (rule std_sort_mset[where key = "\<lambda>a. D ! a ! (ids ! a ! 0)"])

lemma active_obj_ids_set: "std_sort_ok srt \<Longrightarrow> set (active_obj_ids srt D ids m) = {0..<m}"
  using active_obj_ids_mset[of srt D ids m] by (metis set_mset_mset set_upt)

lemma active_obj_ids_distinct: "std_sort_ok srt \<Longrightarrow> distinct (active_obj_ids srt D ids m)"
  using active_obj_ids_mset[of srt D ids m] by (metis distinct_upt mset_eq_imp_distinct_iff)

lemma update_match_inv_eq:
  assumes "tracker_inv s" "m_id_list s \<noteq> []"
  shows "update_match ar gt srt s new_objs =
     register_unused gt new_objs (snd (match_phase ar srt s new_objs))
        (rank_row srt (dist_matrix ar s new_objs (length (m_id_list s)) (length new_objs) ! 0) (length new_objs))
        (fst (match_phase ar srt s new_objs))"
proof -
  have len: "card (dom (m_active_objects s)) = length (m_id_list s)"
    by (rule inv_length[OF assms(1)])
  have "\<forall>i \<in> set [0..<length (m_id_list s)]. m_id_list s ! i \<in> dom (m_active_objects s)"
    using assms by (auto simp: tracker_inv_def)
  then have t: "fold (\<lambda>i mp. touch Object0 mp (m_id_list s ! i)) [0..<length (m_id_list s)] (m_active_objects s)
      = m_active_objects s"
    by (rule fold_touch_present)
  have pos: "sorted_ids srt D (length (m_id_list s)) n ! 0 = rank_row srt (D ! 0) n" for D n
    using assms(2) by (simp add: sorted_ids_def upt_conv_Cons)
  show ?thesis
    by (simp add: update_match_def match_phase_def len t Let_def pos split: prod.splits)
qed

lemma match_phase_frame:
  "m_id_list (fst (match_phase ar srt s new_objs)) = m_id_list s"
  "m_uprooted (fst (match_phase ar srt s new_objs)) = m_uprooted s"
  "m_next_id (fst (match_phase ar srt s new_objs)) = m_next_id s"
  "m_dist_tol (fst (match_phase ar srt s new_objs)) = m_dist_tol s"
  "m_max_dissapeared_frms (fst (match_phase ar srt s new_objs)) = m_max_dissapeared_frms s"
  "m_min_framecount (fst (match_phase ar srt s new_objs)) = m_min_framecount s"
  by (simp_all add: match_phase_def Let_def fold_match_frame)

lemma match_phase_other:
  assumes "std_sort_ok srt" "k \<notin> set (m_id_list s)"
  shows "entry (fst (match_phase ar srt s new_objs)) k = entry s k"
proof -
  have "entry (fst (fold (match_row D ids new_objs) (active_obj_ids srt D ids (length (m_id_list s))) (s, {}))) k
        = entry (fst (s, {}::nat set)) k" for D ids
    by (rule fold_match_other) (use assms in \<open>auto simp: active_obj_ids_set\<close>)
  then show ?thesis by (simp add: match_phase_def Let_def)
qed

lemma match_phase_outcome:
  assumes "std_sort_ok srt" "distinct (m_id_list s)" "i < length (m_id_list s)"
  shows "found_entry (m_dist_tol s)
            (dist_matrix ar s new_objs (length (m_id_list s)) (length new_objs) ! i)
            (rank_row srt (dist_matrix ar s new_objs (length (m_id_list s)) (length new_objs) ! i) (length new_objs))
            new_objs (entry s (m_id_list s ! i)) (entry (fst (match_phase ar srt s new_objs)) (m_id_list s ! i))
       \<or> missed_entry (entry s (m_id_list s ! i)) (entry (fst (match_phase ar srt s new_objs)) (m_id_list s ! i))"
proof -
  define D where "D = dist_matrix ar s new_objs (length (m_id_list s)) (length new_objs)"
  define ids where "ids = sorted_ids srt D (length (m_id_list s)) (length new_objs)"
  define rows where "rows = active_obj_ids srt D ids (length (m_id_list s))"
  have r: "distinct rows" "set rows = {0..<length (m_id_list s)}"
    using assms(1) by (simp_all add: rows_def active_obj_ids_distinct active_obj_ids_set)
  let ?st = "(s, {}::nat set)"
  have "found_entry (m_dist_tol (fst ?st)) (D ! i) (ids ! i) new_objs
       (entry (fst ?st) (m_id_list (fst ?st) ! i))
       (entry (fst (fold (match_row D ids new_objs) rows ?st)) (m_id_list (fst ?st) ! i))
   \<or> missed_entry (entry (fst ?st) (m_id_list (fst ?st) ! i))
        (entry (fst (fold (match_row D ids new_objs) rows ?st)) (m_id_list (fst ?st) ! i))"
    by (rule fold_match_outcome) (use r assms in simp_all)
  moreover have "ids ! i = rank_row srt (D ! i) (length new_objs)"
    using assms(3) by (simp add: ids_def sorted_ids_def)
  ultimately show ?thesis
    by (simp add: match_phase_def Let_def D_def[symmetric] ids_def[symmetric] rows_def[symmetric])
qed

lemma inv_match_phase:
  assumes "std_sort_ok srt" "tracker_inv s"
  shows "tracker_inv (fst (match_phase ar srt s new_objs))"
proof (rule inv_entries[OF assms(2)])
  fix k assume "k \<in> dom (m_active_objects s)"
  then have "k \<in> set (m_id_list s)" using assms(2) by (simp add: tracker_inv_def)
  then obtain i where i: "i < length (m_id_list s)" "k = m_id_list s ! i"
    by (metis in_set_conv_nth)
  have d: "distinct (m_id_list s)" using assms(2) by (simp add: tracker_inv_def)
  from match_phase_outcome[OF assms(1) d i(1), where new_objs = new_objs and ar = ar]
  show "missed_entry (entry s k) (entry (fst (match_phase ar srt s new_objs)) k) \<or>
         (\<exists>tol drow cols new_objs'. found_entry tol drow cols new_objs' (entry s k) (entry (fst (match_phase ar srt s new_objs)) k))"
    unfolding i(2) by blast
next
  fix k assume "k \<notin> dom (m_active_objects s)"
  then have "k \<notin> set (m_id_list s)" using assms(2) by (simp add: tracker_inv_def)
  then show "entry (fst (match_phase ar srt s new_objs)) k = entry s k"
    by (rule match_phase_other[OF assms(1)])
qed (simp_all add: match_phase_frame)

lemma inv_nonempty: "tracker_inv s \<Longrightarrow> card (dom (m_active_objects s)) \<noteq> 0 \<Longrightarrow> m_id_list s \<noteq> []"
  by (auto simp: tracker_inv_def)

lemma inv_update_body:
  assumes "std_sort_ok srt" "tracker_inv s"
  shows "tracker_inv (update_body ar gt srt s new_objs)"
  using assms
  by (simp add: update_body_def inv_update_none update_all_new_reg_all inv_reg_all
        update_match_inv_eq inv_nonempty register_unused_reg_all inv_match_phase)

subsection \<open>reads\<close>

lemma active_objects_loop_present:
  "set ids \<subseteq> dom m \<Longrightarrow>
     active_objects_loop ids m to_ret = (to_ret @ map (\<lambda>k. the (m k)) ids, m)"
  by (induction ids arbitrary: to_ret) (auto simp: touch_present map_at_def)

lemma active_objects_inv:
  "tracker_inv s \<Longrightarrow> active_objects s = (map (\<lambda>k. the (m_active_objects s k)) (m_id_list s), s)"
  by (simp add: active_objects_def active_objects_loop_present tracker_inv_def)

lemma inv_hd: "tracker_inv s \<Longrightarrow> fst (object_count s) \<noteq> 0 \<Longrightarrow>
    m_id_list s \<noteq> [] \<and> hd (m_id_list s) \<in> dom (m_active_objects s) \<and> m_id_list s ! 0 = hd (m_id_list s)"
  by (cases "m_id_list s") (auto simp: tracker_inv_def object_count_def)

lemma top_obj_inv:
  assumes "tracker_inv s"
  shows "top_obj s = (if fst (object_count s) = 0 then None
                      else Some (the (m_active_objects s (hd (m_id_list s)))), s)"
proof (cases "fst (object_count s) = 0")
  case True
  then show ?thesis by (simp add: top_obj_def)
next
  case False
  from inv_hd[OF assms False] show ?thesis
    using False by (auto simp: top_obj_def touch_present map_at_def)
qed

lemma topValid_loop_present:
  "set ks \<subseteq> dom (m_framecount s) \<Longrightarrow> set ks \<subseteq> dom (m_uprooted s) \<Longrightarrow>
     topValid_loop ks s =
       (case filter (eligible s) ks of
          [] \<Rightarrow> (None, s)
        | k # _ \<Rightarrow> (Some (the (m_active_objects s k)), claim s k))"
  by (induction ks) (auto simp: touch_present eligible_def claim_def Let_def)

lemma topValid_inv:
  assumes "tracker_inv s"
  shows "topValid s =
       (case eligible_ids s of
          [] \<Rightarrow> (None, s)
        | k # _ \<Rightarrow> (Some (the (m_active_objects s k)), claim s k))"
proof (cases "fst (object_count s) = 0")
  case True
  then have "dom (m_active_objects s) = {}"
    using inv_finite[OF assms] by (simp add: object_count_def)
  then show ?thesis using True
    by (simp add: topValid_def eligible_ids_def keys_def)
next
  case False
  have "set (keys (m_active_objects s)) = dom (m_active_objects s)"
    using inv_finite[OF assms] by (rule set_keys)
  then have "set (keys (m_active_objects s)) \<subseteq> dom (m_framecount s)"
    "set (keys (m_active_objects s)) \<subseteq> dom (m_uprooted s)"
    using assms by (simp_all add: tracker_inv_def)
  then show ?thesis using False
    by (simp add: topValid_def eligible_ids_def topValid_loop_present)
qed

lemma inv_claim: "tracker_inv s \<Longrightarrow> k \<in> dom (m_active_objects s) \<Longrightarrow> tracker_inv (claim s k)"
  by (auto simp: tracker_inv_def claim_def)

lemma eligible_ids_set: "tracker_inv s \<Longrightarrow> set (eligible_ids s) = {k \<in> dom (m_active_objects s). eligible s k}"
  using inv_finite[of s] by (auto simp: eligible_ids_def set_keys)

lemma inv_topValid: assumes "tracker_inv s" shows "tracker_inv (snd (topValid s))"
proof (cases "eligible_ids s")
  case Nil
  then show ?thesis using assms by (simp add: topValid_inv)
next
  case (Cons k ks)
  then have "k \<in> dom (m_active_objects s)"
    using eligible_ids_set[OF assms] by auto
  then show ?thesis using assms Cons by (simp add: topValid_inv inv_claim)
qed

subsection \<open>Insertion sort keeps the promise of std::sort\<close>

lemma mset_insort_by: "mset (insort_by lt a xs) = add_mset a (mset xs)"
  by (induction xs) simp_all

lemma set_insort_by: "set (insort_by lt a xs) = insert a (set xs)"
  by (induction xs) auto

lemma sorted_insort_by:
  "sorted_wrt (\<lambda>a b. (key :: nat \<Rightarrow> real) a \<le> key b) xs \<Longrightarrow>
   sorted_wrt (\<lambda>a b. key a \<le> key b) (insort_by (\<lambda>a b. key a < key b) a xs)"
  by (induction xs) (auto simp: set_insort_by)

lemma insertion_sort_ok: "std_sort_ok insertion_sort"
proof -
  have "mset (foldr (insort_by lt) xs []) = mset xs" for lt xs
    by (induction xs) (simp_all add: mset_insort_by)
  moreover have "sorted_wrt (\<lambda>a b. key a \<le> key b) (foldr (insort_by (\<lambda>a b. key a < key b)) xs [])"
    for key :: "nat \<Rightarrow> real" and xs
    by (induction xs) (simp_all add: sorted_insort_by)
  ultimately show ?thesis
    by (simp add: std_sort_ok_def insertion_sort_def)
qed

lemma sorted_filter_hd_least:
  "sorted xs \<Longrightarrow> filter P xs = k # rest \<Longrightarrow> k' \<in> set xs \<Longrightarrow> P k' \<Longrightarrow> k \<le> (k'::nat)"
proof (induction xs)
  case Nil
  then show ?case by simp
next
  case (Cons a xs)
  show ?case
  proof (cases "P a")
    case True
    then have "k = a" using Cons.prems by simp
    then show ?thesis using Cons.prems by auto
  next
    case False
    then have "filter P xs = k # rest" "k' \<in> set xs" using Cons.prems by auto
    then show ?thesis using Cons.IH Cons.prems by simp
  qed
qed

lemma eligible_ids_hd:
  assumes "tracker_inv s" "eligible_ids s = k # rest"
  shows "k \<in> dom (m_active_objects s) \<and> eligible s k \<and>
         (\<forall>k' \<in> dom (m_active_objects s). eligible s k' \<longrightarrow> k \<le> k')"
proof -
  have "k \<in> set (eligible_ids s)" using assms(2) by simp
  then have 1: "k \<in> dom (m_active_objects s) \<and> eligible s k"
    using eligible_ids_set[OF assms(1)] by auto
  have "k \<le> k'" if "k' \<in> dom (m_active_objects s)" "eligible s k'" for k'
  proof (rule sorted_filter_hd_least[where P = "eligible s" and xs = "keys (m_active_objects s)"])
    show "sorted (keys (m_active_objects s))" by (rule sorted_keys)
    show "filter (eligible s) (keys (m_active_objects s)) = k # rest"
      using assms(2) by (simp add: eligible_ids_def)
    show "k' \<in> set (keys (m_active_objects s))"
      using that inv_finite[OF assms(1)] by (simp add: set_keys)
    show "eligible s k'" by (rule that)
  qed
  with 1 show ?thesis by blast
qed

lemma inv_empty:
  assumes "tracker_inv s" "fst (object_count s) = 0"
  shows "m_id_list s = []" "m_active_objects s = Map.empty" "m_disappeared s = Map.empty"
    "m_framecount s = Map.empty" "m_uprooted s = Map.empty"
proof -
  have d: "dom (m_active_objects s) = {}"
    using assms inv_finite[OF assms(1)] by (simp add: object_count_def)
  then show "m_id_list s = []" "m_active_objects s = Map.empty" "m_disappeared s = Map.empty"
    "m_framecount s = Map.empty" "m_uprooted s = Map.empty"
    using assms(1) by (simp_all add: tracker_inv_def)
qed

lemma mset_distinct_upt:
  "distinct xs \<Longrightarrow> set xs = {a..<b} \<Longrightarrow> mset xs = mset [a..<b]"
  by (metis distinct_upt set_eq_iff_mset_eq_distinct set_upt)

lemma dist_matrix_nth:
  "i < m \<Longrightarrow> c < n \<Longrightarrow>
   dist_matrix ar s new_objs m n ! i ! c
     = euclidean_distance ar (obj_at (m_active_objects s) (m_id_list s ! i)) (new_objs ! c)"
  by (simp add: dist_matrix_def)



lemma match_phase_dom:
  assumes "std_sort_ok srt" "tracker_inv s"
  shows "dom (m_active_objects (fst (match_phase ar srt s new_objs))) = dom (m_active_objects s)"
proof (rule set_eqI)
  fix k
  have d: "distinct (m_id_list s)" using assms(2) by (simp add: tracker_inv_def)
  show "k \<in> dom (m_active_objects (fst (match_phase ar srt s new_objs))) \<longleftrightarrow> k \<in> dom (m_active_objects s)"
  proof (cases "k \<in> set (m_id_list s)")
    case True
    then obtain i where i: "i < length (m_id_list s)" "k = m_id_list s ! i"
      by (metis in_set_conv_nth)
    have "k \<in> dom (m_active_objects s)" using True assms(2) by (simp add: tracker_inv_def)
    with match_phase_outcome[OF assms(1) d i(1), where new_objs = new_objs and ar = ar] show ?thesis
      using missed_entry_dom found_entry_dom unfolding i(2) by blast
  next
    case False
    from match_phase_other[OF assms(1) False, where new_objs = new_objs and ar = ar] show ?thesis
      using entry_eq_dom by blast
  qed
qed

lemma reg_all_fresh:
  assumes "tracker_inv t" "k \<in> dom (m_active_objects (reg_all gt objs t))" "k \<notin> dom (m_active_objects t)"
  shows "m_framecount (reg_all gt objs t) k = Some 1 \<and> m_disappeared (reg_all gt objs t) k = Some 0 \<and>
         m_uprooted (reg_all gt objs t) k = Some False \<and> m_next_id t \<le> k"
proof -
  from assms(2,3) have "k \<in> {m_next_id t ..< m_next_id t + length objs}"
    by (simp add: reg_all_dom[OF assms(1)])
  then obtain j where j: "k = m_next_id t + j" "j < length objs"
    by (metis atLeastLessThan_iff le_iff_add nat_add_left_cancel_less)
  from reg_all_new[OF assms(1) j(2), of gt] show ?thesis
    by (simp add: entry_def j(1))
qed

lemma update_body_fresh:
  assumes "std_sort_ok srt" "tracker_inv s"
    "k \<in> dom (m_active_objects (update_body ar gt srt s new_objs))" "k \<notin> dom (m_active_objects s)"
  shows "m_framecount (update_body ar gt srt s new_objs) k = Some 1 \<and>
         m_disappeared (update_body ar gt srt s new_objs) k = Some 0 \<and>
         m_uprooted (update_body ar gt srt s new_objs) k = Some False \<and> m_next_id s \<le> k"
proof (cases "new_objs = []")
  case True
  then show ?thesis using assms(3,4) by (simp add: update_body_def update_none_frame)
next
  case False
  show ?thesis
  proof (cases "card (dom (m_active_objects s)) = 0")
    case True
    then have "update_body ar gt srt s new_objs = reg_all gt new_objs s"
      using False by (simp add: update_body_def update_all_new_reg_all)
    with reg_all_fresh[OF assms(2), of k gt new_objs] assms(3,4) show ?thesis by simp
  next
    case c: False
    define mp where "mp = fst (match_phase ar srt s new_objs)"
    have invmp: "tracker_inv mp" unfolding mp_def by (rule inv_match_phase[OF assms(1,2)])
    have ne: "m_id_list s \<noteq> []" by (rule inv_nonempty[OF assms(2) c])
    have b: "update_body ar gt srt s new_objs
        = reg_all gt (map (\<lambda>x. new_objs ! x) (filter (\<lambda>x. x \<notin> snd (match_phase ar srt s new_objs))
             (rank_row srt (dist_matrix ar s new_objs (length (m_id_list s)) (length new_objs) ! 0) (length new_objs)))) mp"
      using False c by (simp add: update_body_def update_match_inv_eq[OF assms(2) ne] register_unused_reg_all mp_def)
    have "k \<notin> dom (m_active_objects mp)"
      using assms(4) by (simp add: mp_def match_phase_dom[OF assms(1,2)])
    with reg_all_fresh[OF invmp, of k gt] assms(3) show ?thesis
      unfolding b by (simp add: mp_def match_phase_frame)
  qed
qed

lemma update_body_config:
  assumes "std_sort_ok srt" "tracker_inv s"
  shows "m_max_dissapeared_frms (update_body ar gt srt s new_objs) = m_max_dissapeared_frms s"
    and "m_min_framecount (update_body ar gt srt s new_objs) = m_min_framecount s"
    and "m_dist_tol (update_body ar gt srt s new_objs) = m_dist_tol s"
    and "m_next_id s \<le> m_next_id (update_body ar gt srt s new_objs)"
proof -
  have invmp: "tracker_inv (fst (match_phase ar srt s new_objs))"
    by (rule inv_match_phase[OF assms])
  have "m_max_dissapeared_frms (update_body ar gt srt s new_objs) = m_max_dissapeared_frms s \<and>
     m_min_framecount (update_body ar gt srt s new_objs) = m_min_framecount s \<and>
     m_dist_tol (update_body ar gt srt s new_objs) = m_dist_tol s \<and>
     m_next_id s \<le> m_next_id (update_body ar gt srt s new_objs)"
  proof (cases "new_objs = []")
    case True
    then show ?thesis by (simp add: update_body_def update_none_frame)
  next
    case False
    show ?thesis
    proof (cases "card (dom (m_active_objects s)) = 0")
      case True
      then show ?thesis using False assms(2)
        by (simp add: update_body_def update_all_new_reg_all reg_all_config)
    next
      case c: False
      have ne: "m_id_list s \<noteq> []" by (rule inv_nonempty[OF assms(2) c])
      show ?thesis using False c
        by (simp add: update_body_def update_match_inv_eq[OF assms(2) ne] register_unused_reg_all
              reg_all_config[OF invmp] match_phase_frame)
    qed
  qed
  then show "m_max_dissapeared_frms (update_body ar gt srt s new_objs) = m_max_dissapeared_frms s"
    and "m_min_framecount (update_body ar gt srt s new_objs) = m_min_framecount s"
    and "m_dist_tol (update_body ar gt srt s new_objs) = m_dist_tol s"
    and "m_next_id s \<le> m_next_id (update_body ar gt srt s new_objs)"
    by blast+
qed

lemma update_body_uprooted_old:
  assumes "std_sort_ok srt" "tracker_inv s" "k < m_next_id s"
  shows "m_uprooted (update_body ar gt srt s new_objs) k = m_uprooted s k"
proof (cases "new_objs = []")
  case True
  then show ?thesis by (simp add: update_body_def update_none_frame)
next
  case False
  show ?thesis
  proof (cases "card (dom (m_active_objects s)) = 0")
    case True
    then show ?thesis using False reg_all_old[OF assms(2,3)]
      by (simp add: update_body_def update_all_new_reg_all)
  next
    case c: False
    have ne: "m_id_list s \<noteq> []" by (rule inv_nonempty[OF assms(2) c])
    have invmp: "tracker_inv (fst (match_phase ar srt s new_objs))"
      by (rule inv_match_phase[OF assms(1,2)])
    have "k < m_next_id (fst (match_phase ar srt s new_objs))"
      using assms(3) by (simp add: match_phase_frame)
    from reg_all_old[OF invmp this] show ?thesis using False c
      by (simp add: update_body_def update_match_inv_eq[OF assms(2) ne] register_unused_reg_all
            match_phase_frame)
  qed
qed

lemma topValid_cases:
  assumes "tracker_inv s"
  shows "snd (topValid s) = s \<or> (\<exists>k \<in> dom (m_active_objects s). snd (topValid s) = claim s k)"
proof (cases "eligible_ids s")
  case Nil
  then show ?thesis by (simp add: topValid_inv[OF assms])
next
  case (Cons k ks)
  then have "k \<in> dom (m_active_objects s)"
    using eligible_ids_set[OF assms] by auto
  then show ?thesis using Cons by (auto simp: topValid_inv[OF assms])
qed

lemma filter_drop_head:
  assumes "distinct xs" "filter P xs = k # rest"
  shows "filter (\<lambda>x. P x \<and> x \<noteq> k) xs = rest"
proof -
  have "distinct (filter P xs)" using assms(1) by simp
  then have "k \<notin> set rest" using assms(2) by simp
  then have r: "filter (\<lambda>x. x \<noteq> k) rest = rest" by (auto simp: filter_id_conv)
  have "filter (\<lambda>x. P x \<and> x \<noteq> k) xs = filter (\<lambda>x. x \<noteq> k) (filter P xs)"
    by (simp add: conj_commute)
  also have "\<dots> = rest" using assms(2) r by simp
  finally show ?thesis .
qed

lemma eligible_claim:
  "eligible (claim s k) k' \<longleftrightarrow> eligible s k' \<and> k' \<noteq> k"
  by (auto simp: eligible_def claim_def map_at_def)

lemma eligible_ids_claim:
  assumes "eligible_ids s = k # rest"
  shows "eligible_ids (claim s k) = rest"
proof -
  have "eligible (claim s k) = (\<lambda>x. eligible s x \<and> x \<noteq> k)"
    by (rule ext) (rule eligible_claim)
  moreover have "m_active_objects (claim s k) = m_active_objects s"
    by (simp add: claim_def)
  ultimately have "eligible_ids (claim s k) = filter (\<lambda>x. eligible s x \<and> x \<noteq> k) (keys (m_active_objects s))"
    by (simp add: eligible_ids_def)
  also have "\<dots> = rest"
    using assms by (intro filter_drop_head) (simp_all add: distinct_keys eligible_ids_def)
  finally show ?thesis .
qed

lemma topValid_eligible_ids:
  assumes "tracker_inv s"
  shows "eligible_ids (snd (topValid s)) = tl (eligible_ids s)"
    and "m_active_objects (snd (topValid s)) = m_active_objects s"
proof -
  show "eligible_ids (snd (topValid s)) = tl (eligible_ids s)"
    by (cases "eligible_ids s") (simp_all add: topValid_inv[OF assms] eligible_ids_claim)
  show "m_active_objects (snd (topValid s)) = m_active_objects s"
    by (cases "eligible_ids s") (simp_all add: topValid_inv[OF assms] claim_def)
qed

lemma retired_not_eligible:
  assumes "tracker_inv t" "retired k t"
  shows "k \<notin> set (eligible_ids t)"
proof
  assume "k \<in> set (eligible_ids t)"
  then have "k \<in> dom (m_active_objects t)" "eligible t k"
    using eligible_ids_set[OF assms(1)] by auto
  then show False using assms(2) by (simp add: retired_def eligible_def map_at_def)
qed

subsection \<open>cleanup and the calls\<close>

lemma cleanup_loop_Inr:
  "cleanup_loop es s = Inr s' \<Longrightarrow> s' = s \<and> (\<forall>e \<in> set es. \<not> m_max_dissapeared_frms s < snd e)"
  by (induction es) (fastforce split: if_splits)+

lemma cleanup_loop_clean:
  "\<forall>e \<in> set es. \<not> m_max_dissapeared_frms s < snd e \<Longrightarrow> cleanup_loop es s = Inr s"
  by (induction es) auto

lemma cleanup_Inr: "cleanup_dissapeared s = Inr s' \<Longrightarrow> s' = s"
  unfolding cleanup_dissapeared_def by (drule cleanup_loop_Inr) simp

lemma cleanup_Inr_not_stale:
  assumes "finite (dom (m_disappeared s))" "cleanup_dissapeared s = Inr s'"
  shows "\<not> stale s k"
proof
  assume st: "stale s k"
  then have "k \<in> set (keys (m_disappeared s))"
    using assms(1) by (simp add: stale_def set_keys)
  then have "(k, the (m_disappeared s k)) \<in> set (map (\<lambda>k. (k, the (m_disappeared s k))) (keys (m_disappeared s)))"
    by auto
  with cleanup_loop_Inr[OF assms(2)[unfolded cleanup_dissapeared_def]] st show False
    by (auto simp: stale_def)
qed

lemma cleanup_clean:
  assumes "finite (dom (m_disappeared s))" "\<forall>k. \<not> stale s k"
  shows "cleanup_dissapeared s = Inr s"
  unfolding cleanup_dissapeared_def
proof (rule cleanup_loop_clean, rule ballI)
  fix e assume "e \<in> set (map (\<lambda>k. (k, the (m_disappeared s k))) (keys (m_disappeared s)))"
  then obtain k where k: "k \<in> dom (m_disappeared s)" "e = (k, the (m_disappeared s k))"
    using assms(1) by (auto simp: set_keys)
  with assms(2) show "\<not> m_max_dissapeared_frms s < snd e"
    by (auto simp: stale_def)
qed

lemma update_Inr: "update ar gt srt s new_objs = Inr u \<Longrightarrow> u = update_body ar gt srt s new_objs"
  unfolding update_def by (rule cleanup_Inr)

lemma inv_update:
  assumes "std_sort_ok srt" "tracker_inv s" "update ar gt srt s new_objs = Inr u"
  shows "tracker_inv u"
  using inv_update_body[OF assms(1,2)] update_Inr[OF assms(3)] by simp

lemma update_Inr_not_stale:
  assumes "std_sort_ok srt" "tracker_inv s" "update ar gt srt s new_objs = Inr u"
  shows "\<not> stale u k"
proof -
  have u: "u = update_body ar gt srt s new_objs" by (rule update_Inr[OF assms(3)])
  have "tracker_inv u" by (rule inv_update[OF assms])
  then have "finite (dom (m_disappeared u))" by (rule inv_fin_dis)
  moreover have "cleanup_dissapeared u = Inr u" using assms(3) by (simp add: update_def u[symmetric])
  ultimately show ?thesis by (rule cleanup_Inr_not_stale)
qed

lemma inv_step:
  assumes "std_sort_ok srt" "tracker_inv s" "step ar gt srt c s = Inr s'"
  shows "tracker_inv s'"
proof (cases c)
  case (Update new_objs)
  then show ?thesis using assms inv_update by simp
next
  case TopValid
  then show ?thesis using assms inv_topValid by auto
qed (use assms in \<open>auto simp: top_obj_inv active_objects_inv object_count_def\<close>)

lemma reachable_inv: "reachable ar gt srt s \<Longrightarrow> std_sort_ok srt \<Longrightarrow> tracker_inv s"
  by (induction rule: reachable.induct) (auto simp: inv_new intro: inv_step)

lemma inv_run:
  "std_sort_ok srt \<Longrightarrow> tracker_inv s \<Longrightarrow> run ar gt srt calls s = Inr t \<Longrightarrow> tracker_inv t"
proof (induction calls arbitrary: s)
  case Nil
  then show ?case by simp
next
  case (Cons c calls)
  then obtain s' where s': "step ar gt srt c s = Inr s'" "run ar gt srt calls s' = Inr t"
    by (auto split: sum.splits)
  from Cons.IH[OF Cons.prems(1) inv_step[OF Cons.prems(1,2) s'(1)] s'(2)] show ?case .
qed

lemma reachable_run:
  "reachable ar gt srt s \<Longrightarrow> run ar gt srt calls s = Inr t \<Longrightarrow> reachable ar gt srt t"
proof (induction calls arbitrary: s)
  case Nil
  then show ?case by simp
next
  case (Cons c calls)
  then obtain s' where s': "step ar gt srt c s = Inr s'" "run ar gt srt calls s' = Inr t"
    by (auto split: sum.splits)
  from Cons.IH[OF reachable.called[OF Cons.prems(1) s'(1)] s'(2)] show ?case .
qed

lemma update_old:
  assumes "std_sort_ok srt" "tracker_inv s" "k < m_next_id s"
    "update ar gt srt s new_objs = Inr u" "k \<in> dom (m_active_objects u)"
  shows "k \<in> dom (m_active_objects s) \<and> m_uprooted u k = m_uprooted s k"
proof -
  have u: "u = update_body ar gt srt s new_objs" by (rule update_Inr[OF assms(4)])
  have "k \<in> dom (m_active_objects s)"
    using update_body_fresh[OF assms(1,2), of k ar gt new_objs] assms(3,5) unfolding u by force
  moreover have "m_uprooted u k = m_uprooted s k"
    unfolding u by (rule update_body_uprooted_old[OF assms(1-3)])
  ultimately show ?thesis by blast
qed

lemma update_next_id:
  assumes "std_sort_ok srt" "tracker_inv s" "update ar gt srt s new_objs = Inr u"
  shows "m_next_id s \<le> m_next_id u"
  using update_body_config(4)[OF assms(1,2)] update_Inr[OF assms(3)] by simp

lemma retired_step:
  assumes "std_sort_ok srt" "tracker_inv t" "retired k t" "step ar gt srt c t = Inr t'"
  shows "retired k t'"
proof (cases c)
  case (Update new_objs)
  then have u: "update ar gt srt t new_objs = Inr t'" using assms(4) by simp
  have "k < m_next_id t'"
    using update_next_id[OF assms(1,2) u] assms(3) by (simp add: retired_def)
  moreover have "m_uprooted t' k = Some True" if "k \<in> dom (m_active_objects t')"
    using update_old[OF assms(1,2) _ u that] assms(3) by (simp add: retired_def)
  ultimately show ?thesis by (simp add: retired_def)
next
  case TopValid
  from topValid_cases[OF assms(2)] show ?thesis
    using assms(3,4) TopValid by (auto simp: retired_def claim_def)
qed (use assms in \<open>auto simp: top_obj_inv active_objects_inv object_count_def\<close>)

lemma retired_run:
  "std_sort_ok srt \<Longrightarrow> tracker_inv t \<Longrightarrow> retired k t \<Longrightarrow> run ar gt srt calls t = Inr t'
     \<Longrightarrow> retired k t'"
proof (induction calls arbitrary: t)
  case Nil
  then show ?case by simp
next
  case (Cons c calls)
  then obtain s' where s': "step ar gt srt c t = Inr s'" "run ar gt srt calls s' = Inr t'"
    by (auto split: sum.splits)
  from Cons.IH[OF Cons.prems(1) inv_step[OF Cons.prems(1,2) s'(1)]
      retired_step[OF Cons.prems(1-3) s'(1)] s'(2)] show ?case .
qed

lemma repeated_topValid:
  "tracker_inv s \<Longrightarrow>
     \<exists>t. run ar gt srt (replicate j TopValid) s = Inr t \<and> tracker_inv t \<and>
         eligible_ids t = drop j (eligible_ids s) \<and> m_active_objects t = m_active_objects s"
proof (induction j arbitrary: s)
  case 0
  then show ?case by simp
next
  case (Suc j)
  have i: "tracker_inv (snd (topValid s))" by (rule inv_topValid[OF Suc.prems])
  from Suc.IH[OF i] topValid_eligible_ids[OF Suc.prems] show ?case
    by (simp add: drop_Suc)
qed

subsection \<open>The sample runs, evaluated\<close>

lemmas sample_defs =
  update_def update_body_def update_all_new_def update_none_def update_match_def
  dist_matrix_def sorted_ids_def rank_row_def active_obj_ids_def match_row_def mark_found_def
  mark_missing_def register_unused_def euclidean_distance_def exact_def insertion_sort_def
  register_object_def by_size_def Obj_def Let_def cleanup_dissapeared_def keys_def
  deregister_object_def touch_def map_at_def ObjectTracker_new_def

lemma tracker1_step:
  "step exact by_size insertion_sort (Update [Obj 0 0 0 5, Obj 10 0 0 3]) tracker0 = Inr tracker1"
  by (simp add: tracker0_def tracker1_def sample_defs numeral_2_eq_2)

lemma tracker2_step:
  "step exact by_size insertion_sort (Update [Obj 0 0 0 1, Obj 11 0 0 3]) tracker1 = Inr tracker2"
  by (simp add: tracker1_def tracker2_def sample_defs)

lemma tracker3_step:
  "step exact by_size insertion_sort (Update [Obj 0 0 0 3, Obj 10 0 0 5]) tracker0 = Inr tracker3"
  by (simp add: tracker0_def tracker3_def sample_defs numeral_2_eq_2)

lemma tracker4_step:
  "step exact by_size insertion_sort (Update [Obj 0 0 0 3, Obj 11 0 0 5]) tracker3 = Inr tracker4"
  by (simp add: tracker3_def tracker4_def sample_defs)

lemma tracker_near_step:
  "step exact by_size insertion_sort (Update [Obj 0 0 0 5, Obj 1 0 0 3]) tracker0 = Inr tracker_near"
  by (simp add: tracker0_def tracker_near_def sample_defs numeral_2_eq_2)

lemma tracker_missed_run:
  "run exact by_size insertion_sort [Update [Obj 0 0 0 5], Update []] tracker0 = Inr tracker_missed"
  by (simp add: tracker0_def tracker_missed_def sample_defs)


lemma tracker_missed2_step:
  "step exact by_size insertion_sort (Update []) tracker_missed = Inr tracker_missed2"
  by (simp add: tracker_missed_def tracker_missed2_def sample_defs)

lemma reachable_tracker0: "reachable exact by_size insertion_sort tracker0"
  unfolding tracker0_def by (rule reachable.constructed)

lemma reachable_tracker1: "reachable exact by_size insertion_sort tracker1"
  by (rule reachable.called[OF reachable_tracker0 tracker1_step])

lemma reachable_tracker2: "reachable exact by_size insertion_sort tracker2"
  by (rule reachable.called[OF reachable_tracker1 tracker2_step])

lemma reachable_tracker3: "reachable exact by_size insertion_sort tracker3"
  by (rule reachable.called[OF reachable_tracker0 tracker3_step])

lemma reachable_tracker4: "reachable exact by_size insertion_sort tracker4"
  by (rule reachable.called[OF reachable_tracker3 tracker4_step])

lemma reachable_tracker_near: "reachable exact by_size insertion_sort tracker_near"
  by (rule reachable.called[OF reachable_tracker0 tracker_near_step])

lemma reachable_tracker_missed: "reachable exact by_size insertion_sort tracker_missed"
  by (rule reachable_run[OF reachable_tracker0 tracker_missed_run])

lemma reachable_tracker_missed2: "reachable exact by_size insertion_sort tracker_missed2"
  by (rule reachable.called[OF reachable_tracker_missed tracker_missed2_step])

subsection \<open>Claimed columns\<close>

lemma match_row_result:
  "row_result (m_dist_tol (fst st)) (D ! r) (ids ! r) new_objs (snd st)
       (entry (fst st) (m_id_list (fst st) ! r))
       (entry (fst (match_row D ids new_objs r st)) (m_id_list (fst st) ! r))
       (find (\<lambda>c. c \<notin> snd st \<and> D ! r ! c < m_dist_tol (fst st)) (ids ! r)) \<and>
   snd (match_row D ids new_objs r st)
     = snd st \<union> {c. Some c = find (\<lambda>c. c \<notin> snd st \<and> D ! r ! c < m_dist_tol (fst st)) (ids ! r)}"
proof (cases st)
  case (Pair s used)
  show ?thesis
  proof (cases "find (\<lambda>c. c \<notin> used \<and> D ! r ! c < m_dist_tol s) (ids ! r)")
    case None
    then have "\<forall>c \<in> set (ids ! r). c \<notin> used \<longrightarrow> \<not> D ! r ! c < m_dist_tol s"
      by (auto simp: find_None_iff)
    then show ?thesis
      by (simp add: Pair match_row_def None row_result_def missed_entry_def entry_def mark_missing_def
            map_at_def)
  next
    case (Some c)
    then have "c \<in> set (ids ! r)" "c \<notin> used" "D ! r ! c < m_dist_tol s"
      by (auto simp: find_Some_iff)
    then show ?thesis
      by (simp add: Pair match_row_def Some row_result_def entry_def mark_found_def map_at_def)
  qed
qed

lemma fold_match_claims:
  assumes "distinct rows" "\<forall>r \<in> set rows. r < length (m_id_list (fst st))"
    "distinct (m_id_list (fst st))"
  shows "\<exists>cs. length cs = length rows \<and>
           (\<forall>p < length rows.
              row_result (m_dist_tol (fst st)) (D ! (rows ! p)) (ids ! (rows ! p)) new_objs
                (snd st \<union> {c. Some c \<in> set (take p cs)})
                (entry (fst st) (m_id_list (fst st) ! (rows ! p)))
                (entry (fst (fold (match_row D ids new_objs) rows st)) (m_id_list (fst st) ! (rows ! p)))
                (cs ! p))"
  using assms
proof (induction rows arbitrary: st)
  case Nil
  then show ?case by simp
next
  case (Cons a rows)
  let ?st1 = "match_row D ids new_objs a st"
  let ?copt = "find (\<lambda>c. c \<notin> snd st \<and> D ! a ! c < m_dist_tol (fst st)) (ids ! a)"
  let ?fin = "fst (fold (match_row D ids new_objs) rows ?st1)"
  have ids1: "m_id_list (fst ?st1) = m_id_list (fst st)" by (simp add: match_row_frame)
  have tol1: "m_dist_tol (fst ?st1) = m_dist_tol (fst st)" by (simp add: match_row_frame)
  have arng: "a < length (m_id_list (fst st))" using Cons.prems by simp
  have others: "m_id_list (fst st) ! r \<noteq> m_id_list (fst st) ! a" if "r \<in> set rows" for r
  proof -
    have "r \<noteq> a" "r < length (m_id_list (fst st))" using that Cons.prems by auto
    then show ?thesis using Cons.prems(3) arng by (simp add: nth_eq_iff_index_eq)
  qed
  from match_row_result[of st D a ids new_objs]
  have step: "row_result (m_dist_tol (fst st)) (D ! a) (ids ! a) new_objs (snd st)
       (entry (fst st) (m_id_list (fst st) ! a)) (entry (fst ?st1) (m_id_list (fst st) ! a)) ?copt"
    and used1: "snd ?st1 = snd st \<union> {c. Some c = ?copt}"
    by blast+
  have "\<exists>cs. length cs = length rows \<and>
           (\<forall>p < length rows.
              row_result (m_dist_tol (fst ?st1)) (D ! (rows ! p)) (ids ! (rows ! p)) new_objs
                (snd ?st1 \<union> {c. Some c \<in> set (take p cs)})
                (entry (fst ?st1) (m_id_list (fst ?st1) ! (rows ! p)))
                (entry ?fin (m_id_list (fst ?st1) ! (rows ! p)))
                (cs ! p))"
    using Cons.prems by (intro Cons.IH) (simp_all add: ids1)
  then obtain cs where cs: "length cs = length rows"
    "\<And>p. p < length rows \<Longrightarrow>
              row_result (m_dist_tol (fst st)) (D ! (rows ! p)) (ids ! (rows ! p)) new_objs
                (snd ?st1 \<union> {c. Some c \<in> set (take p cs)})
                (entry (fst ?st1) (m_id_list (fst st) ! (rows ! p)))
                (entry ?fin (m_id_list (fst st) ! (rows ! p)))
                (cs ! p)"
    unfolding ids1 tol1 by blast
  have "\<forall>p < length (a # rows).
              row_result (m_dist_tol (fst st)) (D ! ((a # rows) ! p)) (ids ! ((a # rows) ! p)) new_objs
                (snd st \<union> {c. Some c \<in> set (take p (?copt # cs))})
                (entry (fst st) (m_id_list (fst st) ! ((a # rows) ! p)))
                (entry (fst (fold (match_row D ids new_objs) (a # rows) st)) (m_id_list (fst st) ! ((a # rows) ! p)))
                ((?copt # cs) ! p)"
  proof (intro allI impI)
    fix p assume p: "p < length (a # rows)"
    show "row_result (m_dist_tol (fst st)) (D ! ((a # rows) ! p)) (ids ! ((a # rows) ! p)) new_objs
                (snd st \<union> {c. Some c \<in> set (take p (?copt # cs))})
                (entry (fst st) (m_id_list (fst st) ! ((a # rows) ! p)))
                (entry (fst (fold (match_row D ids new_objs) (a # rows) st)) (m_id_list (fst st) ! ((a # rows) ! p)))
                ((?copt # cs) ! p)"
    proof (cases p)
      case 0
      have "\<forall>r \<in> set rows. m_id_list (fst ?st1) ! r \<noteq> m_id_list (fst st) ! a"
        using others by (simp add: ids1)
      then have "entry ?fin (m_id_list (fst st) ! a) = entry (fst ?st1) (m_id_list (fst st) ! a)"
        by (rule fold_match_other)
      with step 0 show ?thesis by simp
    next
      case (Suc q)
      then have q: "q < length rows" using p by simp
      then have rin: "rows ! q \<in> set rows" by simp
      have "m_id_list (fst st) ! (rows ! q) \<noteq> m_id_list (fst ?st1) ! a"
        using others[OF rin] by (simp add: ids1)
      then have e1: "entry (fst ?st1) (m_id_list (fst st) ! (rows ! q)) = entry (fst st) (m_id_list (fst st) ! (rows ! q))"
        using match_row_other[of "m_id_list (fst st) ! (rows ! q)" st a D ids new_objs] ids1 by simp
      have u: "snd ?st1 \<union> {c. Some c \<in> set (take q cs)} = snd st \<union> {c. Some c \<in> set (take (Suc q) (?copt # cs))}"
        unfolding used1 by auto
      from cs(2)[OF q] show ?thesis
        unfolding e1 u using Suc by simp
    qed
  qed
  then show ?case using cs(1) by (intro exI[of _ "?copt # cs"]) simp
qed

lemma match_phase_claims:
  assumes "std_sort_ok srt" "tracker_inv s"
  shows "\<exists>cs. length cs = length (m_id_list s) \<and>
           (\<forall>p < length (m_id_list s).
              row_result (m_dist_tol s)
                (dist_matrix ar s new_objs (length (m_id_list s)) (length new_objs) ! (resolution_order ar srt s new_objs ! p))
                (rank_row srt (dist_matrix ar s new_objs (length (m_id_list s)) (length new_objs) ! (resolution_order ar srt s new_objs ! p)) (length new_objs))
                new_objs {c. Some c \<in> set (take p cs)}
                (entry s (m_id_list s ! (resolution_order ar srt s new_objs ! p)))
                (entry (fst (match_phase ar srt s new_objs)) (m_id_list s ! (resolution_order ar srt s new_objs ! p)))
                (cs ! p))"
proof -
  define D where "D = dist_matrix ar s new_objs (length (m_id_list s)) (length new_objs)"
  define ids where "ids = sorted_ids srt D (length (m_id_list s)) (length new_objs)"
  define rows where "rows = active_obj_ids srt D ids (length (m_id_list s))"
  have ro: "resolution_order ar srt s new_objs = rows"
    by (simp add: resolution_order_def Let_def rows_def ids_def D_def)
  have mp: "match_phase ar srt s new_objs = fold (match_row D ids new_objs) rows (s, {})"
    by (simp add: match_phase_def Let_def rows_def ids_def D_def)
  have r: "distinct rows" "set rows = {0..<length (m_id_list s)}"
    using assms(1) by (simp_all add: rows_def active_obj_ids_distinct active_obj_ids_set)
  have len: "length rows = length (m_id_list s)"
    using active_obj_ids_mset[OF assms(1), of D ids "length (m_id_list s)"]
    by (metis rows_def length_upt mset_eq_length minus_nat.diff_0)
  let ?st = "(s, {}::nat set)"
  have d: "distinct (m_id_list (fst ?st))" using assms(2) by (simp add: tracker_inv_def)
  have rng: "\<forall>r \<in> set rows. r < length (m_id_list (fst ?st))" using r(2) by simp
  from fold_match_claims[OF r(1) rng d, of D ids new_objs]
  obtain cs where cs: "length cs = length rows"
    "\<And>p. p < length rows \<Longrightarrow>
        row_result (m_dist_tol s) (D ! (rows ! p)) (ids ! (rows ! p)) new_objs
                {c. Some c \<in> set (take p cs)}
                (entry s (m_id_list s ! (rows ! p)))
                (entry (fst (fold (match_row D ids new_objs) rows ?st)) (m_id_list s ! (rows ! p)))
                (cs ! p)"
    by auto
  have idsr: "ids ! (rows ! p) = rank_row srt (D ! (rows ! p)) (length new_objs)" if "p < length rows" for p
  proof -
    have "rows ! p \<in> set rows" using that by simp
    then have "rows ! p < length (m_id_list s)" using r(2) by simp
    then show ?thesis by (simp add: ids_def sorted_ids_def)
  qed
  show ?thesis
    unfolding ro mp D_def[symmetric]
    using cs idsr len by (intro exI[of _ cs]) auto
qed

lemma resolution_order_mset:
  "std_sort_ok srt \<Longrightarrow> mset (resolution_order ar srt s new_objs) = mset [0..<length (m_id_list s)]"
  by (simp add: resolution_order_def Let_def active_obj_ids_mset)

lemma tracker5_run:
  "run exact by_size insertion_sort [Update [Obj 0 0 0 3, Obj 12 0 0 5], TopValid]
     (snd (topValid tracker4)) = Inr tracker5"
  by (simp add: topValid_def topValid_loop.simps object_count_def tracker4_def tracker5_def sample_defs)

lemma tracker_erased_update:
  "update exact by_size insertion_sort tracker_missed2 [] = Inl (InvalidatedIterator tracker_erased)"
  by (simp add: tracker_missed2_def tracker_erased_def sample_defs)

subsection \<open>The library's sort on short rows\<close>

lemma introsort_loop_small:
  "lst - first \<le> 16 \<Longrightarrow> introsort_loop cmp d first lst xs = Some xs"
  by (cases d) (simp_all add: S_threshold_def)

lemma unguarded_linear_insert_append:
  "\<exists>e\<in>set ps. \<not> cmp v e \<Longrightarrow>
   \<exists>ps1 ps2. ps = ps1 @ ps2 \<and> ps1 \<noteq> [] \<and> \<not> cmp v (last ps1) \<and> (\<forall>e\<in>set ps2. cmp v e) \<and>
     unguarded_linear_insert cmp v (length ps) (ps @ x # rest) = Some (ps1 @ v # ps2 @ rest)"
proof (induction ps arbitrary: x rest rule: rev_induct)
  case Nil
  then show ?case by simp
next
  case (snoc e qs)
  show ?case
  proof (cases "cmp v e")
    case True
    with snoc.prems have ex: "\<exists>e\<in>set qs. \<not> cmp v e" by auto
    from snoc.IH[OF ex, of e "e # rest"] obtain ps1 ps2 where
      h: "qs = ps1 @ ps2" "ps1 \<noteq> []" "\<not> cmp v (last ps1)" "\<forall>e\<in>set ps2. cmp v e"
         "unguarded_linear_insert cmp v (length qs) (qs @ e # e # rest) = Some (ps1 @ v # ps2 @ e # rest)"
      by blast
    have upd: "((qs @ [e]) @ x # rest)[Suc (length qs) := e] = qs @ e # e # rest"
      by (simp add: list_update_append)
    have "unguarded_linear_insert cmp v (length (qs @ [e])) ((qs @ [e]) @ x # rest)
            = Some (ps1 @ v # (ps2 @ [e]) @ rest)"
      using True h(5) by (simp add: nth_append upd del: append_assoc)
    with h True show ?thesis
      by (intro exI[of _ ps1] exI[of _ "ps2 @ [e]"]) auto
  next
    case False
    have "unguarded_linear_insert cmp v (length (qs @ [e])) ((qs @ [e]) @ x # rest)
            = Some ((qs @ [e]) @ v # [] @ rest)"
      using False by (simp add: nth_append list_update_append)
    with False show ?thesis
      by (intro exI[of _ "qs @ [e]"] exI[of _ "[]"]) auto
  qed
qed

lemma insertion_sort_step_sorted:
  fixes key :: "nat \<Rightarrow> real"
  defines "R \<equiv> \<lambda>a b. key a < key b \<or> key a = key b \<and> a < b"
  assumes srt: "sorted_wrt R ps" and ne: "ps \<noteq> []" and lt: "\<forall>e\<in>set ps. e < v"
  shows "\<exists>qs. insertion_sort_step (\<lambda>a b. key a < key b) 0 (length ps) (ps @ v # rest) = Some (qs @ rest) \<and>
              mset qs = add_mset v (mset ps) \<and> sorted_wrt R qs"
proof -
  obtain p ps' where ps: "ps = p # ps'" using ne by (cases ps) auto
  have x0: "(ps @ v # rest) ! 0 = p" by (simp add: ps)
  have xi: "(ps @ v # rest) ! length ps = v" by (simp add: nth_append)
  show ?thesis
  proof (cases "key v < key p")
    case True
    have "move_backward 0 (length ps) (ps @ v # rest) = p # ps @ rest"
      by (simp add: move_backward_def ps)
    then have "insertion_sort_step (\<lambda>a b. key a < key b) 0 (length ps) (ps @ v # rest) = Some ((v # ps) @ rest)"
      using True unfolding insertion_sort_step_def x0 xi by (simp add: ps)
    moreover have "sorted_wrt R (v # ps)"
      using True srt by (auto simp: ps R_def)
    ultimately show ?thesis by (intro exI[of _ "v # ps"]) simp
  next
    case False
    then have ex: "\<exists>e\<in>set ps. \<not> (\<lambda>a b. key a < key b) v e"
      by (intro bexI[of _ p]) (auto simp: ps)
    from unguarded_linear_insert_append[where cmp = "\<lambda>a b. key a < key b" and v = v and ps = ps
        and x = v and rest = rest, OF ex] obtain ps1 ps2 where
      h: "ps = ps1 @ ps2" "ps1 \<noteq> []" "\<not> key v < key (last ps1)" "\<forall>e\<in>set ps2. key v < key e"
         "unguarded_linear_insert (\<lambda>a b. key a < key b) v (length ps) (ps @ v # rest) = Some (ps1 @ v # ps2 @ rest)"
      by blast
    have step: "insertion_sort_step (\<lambda>a b. key a < key b) 0 (length ps) (ps @ v # rest) = Some ((ps1 @ v # ps2) @ rest)"
      using False h(5) unfolding insertion_sort_step_def x0 xi by simp
    have s1: "sorted_wrt R ps1" and s2: "sorted_wrt R ps2" and s12: "\<forall>a\<in>set ps1. \<forall>b\<in>set ps2. R a b"
      using srt by (auto simp: h(1) sorted_wrt_append)
    have le_last: "key a \<le> key (last ps1)" if "a \<in> set ps1" for a
    proof (cases "a = last ps1")
      case True then show ?thesis by simp
    next
      case False
      have "ps1 = butlast ps1 @ [last ps1]" using h(2) by simp
      then have "set ps1 = insert (last ps1) (set (butlast ps1))"
        by (metis Un_insert_right append_Nil2 list.simps(15) set_append)
      with that False have "a \<in> set (butlast ps1)" by auto
      moreover have "sorted_wrt R (butlast ps1 @ [last ps1])" using s1 h(2) by simp
      ultimately have "R a (last ps1)" by (auto simp: sorted_wrt_append)
      then show ?thesis by (auto simp: R_def)
    qed
    have a: "R a v" if "a \<in> set ps1" for a
      using le_last[OF that] h(3) lt that by (auto simp: R_def h(1))
    have b: "R v e" if "e \<in> set ps2" for e
      using h(4) that by (auto simp: R_def)
    have "sorted_wrt R (ps1 @ v # ps2)"
      using s1 s2 s12 a b by (auto simp: sorted_wrt_append)
    moreover have "mset (ps1 @ v # ps2) = add_mset v (mset ps)" by (simp add: h(1))
    ultimately show ?thesis using step by blast
  qed
qed

lemma insertion_sort_loop_sorted:
  fixes key :: "nat \<Rightarrow> real"
  defines "R \<equiv> \<lambda>a b. key a < key b \<or> key a = key b \<and> a < b"
  assumes "sorted_wrt R ps" "ps \<noteq> []" "sorted_wrt (<) rest" "\<forall>e\<in>set ps. \<forall>r\<in>set rest. e < r"
  shows "\<exists>ys. for_each (insertion_sort_step (\<lambda>a b. key a < key b) 0)
                [length ps..<length ps + length rest] (ps @ rest) = Some ys \<and>
              mset ys = mset (ps @ rest) \<and> sorted_wrt R ys"
  using assms(2-)
proof (induction rest arbitrary: ps)
  case Nil
  then show ?case by simp
next
  case (Cons v rest)
  have lt: "\<forall>e\<in>set ps. e < v" using Cons.prems(4) by simp
  from insertion_sort_step_sorted[OF Cons.prems(1)[unfolded R_def] Cons.prems(2) lt, of rest]
  obtain qs where q: "insertion_sort_step (\<lambda>a b. key a < key b) 0 (length ps) (ps @ v # rest) = Some (qs @ rest)"
    "mset qs = add_mset v (mset ps)" "sorted_wrt R qs"
    unfolding R_def by blast
  have len: "length qs = Suc (length ps)"
    using q(2) by (metis size_mset size_add_mset)
  have ne: "qs \<noteq> []" using len by auto
  have setq: "set qs = insert v (set ps)"
    using q(2) by (metis set_mset_mset set_mset_add_mset_insert)
  have ord: "\<forall>e\<in>set qs. \<forall>r\<in>set rest. e < r"
    using Cons.prems(3,4) by (auto simp: setq)
  have sr: "sorted_wrt (<) rest" using Cons.prems(3) by simp
  from Cons.IH[OF q(3) ne sr ord] obtain ys where
    y: "for_each (insertion_sort_step (\<lambda>a b. key a < key b) 0)
          [length qs..<length qs + length rest] (qs @ rest) = Some ys"
       "mset ys = mset (qs @ rest)" "sorted_wrt R ys"
    by blast
  have "[length ps..<length ps + length (v # rest)] = length ps # [length qs..<length qs + length rest]"
    using upt_conv_Cons[of "length ps" "length ps + length (v # rest)"] by (simp add: len del: upt_Suc)
  then have "for_each (insertion_sort_step (\<lambda>a b. key a < key b) 0)
          [length ps..<length ps + length (v # rest)] (ps @ v # rest) = Some ys"
    using q(1) y(1) by simp
  moreover have "mset ys = mset (ps @ v # rest)" using y(2) q(2) by simp
  ultimately show ?case using y(3) by blast
qed

text \<open>A list of at most 16 elements is sorted by \<open>__insertion_sort\<close> alone, which never moves
  an element past one with the same key.\<close>

lemma gnu_sort_small_stable:
  fixes key :: "nat \<Rightarrow> real"
  assumes "n \<le> 16"
  shows "\<exists>ys. gnu_sort (\<lambda>a b. key a < key b) [0..<n] = Some ys \<and> mset ys = mset [0..<n] \<and>
              sorted_wrt (\<lambda>a b. key a < key b \<or> key a = key b \<and> a < b) ys"
proof (cases n)
  case 0
  then show ?thesis by (simp add: gnu_sort_def)
next
  case (Suc m)
  have pos: "0 < n" using Suc by simp
  have split: "[0..<n] = [0] @ [1..<n]" using pos by (simp add: upt_conv_Cons)
  have idx: "[length [0::nat]..<length [0::nat] + length [1..<n]] = [Suc 0..<n]" using pos by simp
  have a: "sorted_wrt (\<lambda>a b. key a < key b \<or> key a = key b \<and> a < b) [0::nat]" by simp
  have c: "sorted_wrt (<) [1..<n]" by (simp add: sorted_wrt_upt)
  from insertion_sort_loop_sorted[OF a _ c, of ]
  obtain ys where y: "for_each (insertion_sort_step (\<lambda>a b. key a < key b) 0)
                [length [0::nat]..<length [0::nat] + length [1..<n]] ([0] @ [1..<n]) = Some ys"
     "mset ys = mset ([0] @ [1..<n])"
     "sorted_wrt (\<lambda>a b. key a < key b \<or> key a = key b \<and> a < b) ys"
    by auto
  have "for_each (insertion_sort_step (\<lambda>a b. key a < key b) 0) [Suc 0..<n] [0..<n] = Some ys"
    using y(1) unfolding idx split[symmetric] .
  then have "gnu_insertion_sort (\<lambda>a b. key a < key b) 0 n [0..<n] = Some ys"
    using pos by (simp add: gnu_insertion_sort_def)
  then have "gnu_sort (\<lambda>a b. key a < key b) [0..<n] = Some ys"
    using assms pos by (simp add: gnu_sort_def introsort_loop_small final_insertion_sort_def S_threshold_def)
  then show ?thesis using y(2,3) split by auto
qed

subsection \<open>Partitioning\<close>

lemma scan_up_Some:
  assumes "f \<le> i" "i < length xs" "\<not> cmp (xs ! i) (xs ! pivot)"
  shows "\<exists>f'. scan_up cmp xs pivot f = Some f' \<and> f \<le> f' \<and> f' \<le> i \<and> \<not> cmp (xs ! f') (xs ! pivot) \<and>
              (\<forall>p. f \<le> p \<and> p < f' \<longrightarrow> cmp (xs ! p) (xs ! pivot))"
proof -
  let ?P = "\<lambda>i. \<not> cmp (xs ! i) (xs ! pivot)"
  have "i \<in> set [f..<length xs]" using assms by simp
  then have "find ?P [f..<length xs] \<noteq> None" using assms(3) by (auto simp: find_None_iff)
  then obtain f' where f': "find ?P [f..<length xs] = Some f'" by auto
  then obtain k where k: "k < length [f..<length xs]" "?P ([f..<length xs] ! k)" "f' = [f..<length xs] ! k"
    "\<forall>j<k. \<not> ?P ([f..<length xs] ! j)"
    unfolding find_Some_iff by blast
  have fk: "f' = f + k" using k(1,3) by simp
  have a: "cmp (xs ! p) (xs ! pivot)" if "f \<le> p" "p < f'" for p
  proof -
    have "p - f < k" using that fk by simp
    with k(4) have "\<not> ?P ([f..<length xs] ! (p - f))" by blast
    moreover have "[f..<length xs] ! (p - f) = p" using that k(1) fk by simp
    ultimately show ?thesis by simp
  qed
  have "f' \<le> i" using a[of i] assms(1,3) by (meson not_le)
  moreover have "?P f'" using k(2,3) by simp
  ultimately show ?thesis using f' fk a by (auto simp: scan_up_def)
qed

lemma scan_down_Some:
  assumes "j \<le> l" "\<not> cmp (xs ! pivot) (xs ! j)"
  shows "\<exists>l'. scan_down cmp xs pivot l = Some l' \<and> j \<le> l' \<and> l' \<le> l \<and> \<not> cmp (xs ! pivot) (xs ! l') \<and>
              (\<forall>p. l' < p \<and> p \<le> l \<longrightarrow> cmp (xs ! pivot) (xs ! p))"
proof -
  let ?P = "\<lambda>i. \<not> cmp (xs ! pivot) (xs ! i)"
  let ?is = "rev [0..<Suc l]"
  have nth: "?is ! k = l - k" if "k \<le> l" for k
    using that by (simp add: rev_nth del: upt_Suc)
  have "j \<in> set ?is" using assms by (simp del: upt_Suc)
  then have "find ?P ?is \<noteq> None" using assms(2) by (auto simp: find_None_iff simp del: upt_Suc)
  then obtain l' where l': "find ?P ?is = Some l'" by auto
  then obtain k where k: "k < length ?is" "?P (?is ! k)" "l' = ?is ! k" "\<forall>j<k. \<not> ?P (?is ! j)"
    unfolding find_Some_iff by blast
  have kl: "k \<le> l" using k(1) by (simp del: upt_Suc)
  have lk: "l' = l - k" using k(3) nth[OF kl] by simp
  have a: "cmp (xs ! pivot) (xs ! p)" if "l' < p" "p \<le> l" for p
  proof -
    have "l - p < k" using that lk kl by simp
    with k(4) have "\<not> ?P (?is ! (l - p))" by blast
    moreover have "?is ! (l - p) = p" using that nth[of "l - p"] by simp
    ultimately show ?thesis by simp
  qed
  have "j \<le> l'" using a[of j] assms by (meson not_le)
  moreover have "?P l'" using k(2,3) by simp
  ultimately show ?thesis using l' lk a by (auto simp: scan_down_def simp del: upt_Suc)
qed

lemma mset_iter_swap:
  "a < length xs \<Longrightarrow> b < length xs \<Longrightarrow> mset (iter_swap a b xs) = mset xs"
  unfolding iter_swap_def by (simp add: mset_swap)

lemma length_iter_swap [simp]: "length (iter_swap a b xs) = length xs"
  by (simp add: iter_swap_def)

lemma nth_iter_swap:
  "a < length xs \<Longrightarrow> b < length xs \<Longrightarrow>
   iter_swap a b xs ! i = (if i = b then xs ! a else if i = a then xs ! b else xs ! i)"
  by (auto simp: iter_swap_def nth_list_update)

lemma unguarded_partition_post:
  fixes key :: "'a \<Rightarrow> real"
  assumes "pivot < f" "f \<le> l" "l \<le> lst" "lst \<le> length xs"
    and left: "\<forall>p. pivot < p \<and> p < f \<longrightarrow> key (xs ! p) \<le> key (xs ! pivot)"
    and right: "\<forall>p. l \<le> p \<and> p < lst \<longrightarrow> key (xs ! pivot) \<le> key (xs ! p)"
    and sentinel: "\<exists>i. f \<le> i \<and> i < lst \<and> key (xs ! pivot) \<le> key (xs ! i)"
  shows "\<exists>cut ys. unguarded_partition (\<lambda>a b. key a < key b) pivot f l xs = Some (cut, ys) \<and>
           f \<le> cut \<and> cut < lst \<and> mset ys = mset xs \<and> length ys = length xs \<and>
           (\<forall>i. i \<le> pivot \<or> lst \<le> i \<longrightarrow> ys ! i = xs ! i) \<and>
           (\<forall>p. pivot < p \<and> p < cut \<longrightarrow> key (ys ! p) \<le> key (ys ! pivot)) \<and>
           (\<forall>p. cut \<le> p \<and> p < lst \<longrightarrow> key (ys ! pivot) \<le> key (ys ! p))"
  using assms
proof (induction l arbitrary: f xs rule: less_induct)
  case (less l)
  let ?cmp = "\<lambda>a b. key a < key b"
  from less.prems(7) obtain i where i: "f \<le> i" "i < lst" "key (xs ! pivot) \<le> key (xs ! i)" by blast
  have "\<not> ?cmp (xs ! i) (xs ! pivot)" using i(3) by simp
  from scan_up_Some[where cmp = ?cmp, OF i(1) _ this] i(2) less.prems(4)
  obtain f' where f': "scan_up ?cmp xs pivot f = Some f'" "f \<le> f'" "f' \<le> i"
    "key (xs ! pivot) \<le> key (xs ! f')" "\<forall>p. f \<le> p \<and> p < f' \<longrightarrow> key (xs ! p) < key (xs ! pivot)"
    by (auto simp: not_less)
  have l0: "l \<noteq> 0" "pivot \<le> l - 1" using less.prems(1,2) by auto
  have "\<not> ?cmp (xs ! pivot) (xs ! pivot)" by simp
  from scan_down_Some[where cmp = ?cmp, OF l0(2) this]
  obtain l' where l': "scan_down ?cmp xs pivot (l - 1) = Some l'" "pivot \<le> l'" "l' \<le> l - 1"
    "key (xs ! l') \<le> key (xs ! pivot)" "\<forall>p. l' < p \<and> p \<le> l - 1 \<longrightarrow> key (xs ! pivot) < key (xs ! p)"
    by (auto simp: not_less)
  show ?case
  proof (cases "f' < l'")
    case False
    have eq: "unguarded_partition ?cmp pivot f l xs = Some (f', xs)"
      using f'(1) l'(1) l0(1) False by (subst unguarded_partition.simps) simp
    have a: "key (xs ! p) \<le> key (xs ! pivot)" if "pivot < p" "p < f'" for p
      using that less.prems(5) f'(5) by (cases "p < f") (auto simp: less_imp_le)
    have b: "key (xs ! pivot) \<le> key (xs ! p)" if "f' \<le> p" "p < lst" for p
    proof (cases "l \<le> p")
      case True
      then show ?thesis using less.prems(6) that by simp
    next
      case lp: False
      show ?thesis
      proof (cases "l' < p")
        case True
        then show ?thesis using l'(5) lp by (simp add: less_imp_le)
      next
        case False
        with that(1) \<open>\<not> f' < l'\<close> have "p = f'" by simp
        then show ?thesis using f'(4) by simp
      qed
    qed
    show ?thesis
      unfolding eq using f'(2,3) i(2) a b by auto
  next
    case True
    let ?xs = "iter_swap f' l' xs"
    have bounds: "f' < length xs" "l' < length xs" "l' < l" "pivot < f'" "pivot < l'"
      using True l'(3) l0 less.prems(1-4) f'(2) by auto
    have eq: "unguarded_partition ?cmp pivot f l xs = unguarded_partition ?cmp pivot (Suc f') l' ?xs"
      using f'(1) l'(1) l0(1) True by (subst unguarded_partition.simps) simp
    have piv: "?xs ! pivot = xs ! pivot"
      using bounds by (simp add: nth_iter_swap)
    have left': "\<forall>p. pivot < p \<and> p < Suc f' \<longrightarrow> key (?xs ! p) \<le> key (?xs ! pivot)"
    proof (intro allI impI)
      fix p assume p: "pivot < p \<and> p < Suc f'"
      show "key (?xs ! p) \<le> key (?xs ! pivot)"
      proof (cases "p = f'")
        case True
        then show ?thesis using bounds l'(4) \<open>f' < l'\<close> by (simp add: nth_iter_swap piv[simplified] )
      next
        case False
        then have "p < f'" "p \<noteq> l'" using p \<open>f' < l'\<close> by auto
        then have "?xs ! p = xs ! p" using bounds by (simp add: nth_iter_swap)
        moreover have "key (xs ! p) \<le> key (xs ! pivot)"
          using p \<open>p < f'\<close> less.prems(5) f'(5) by (cases "p < f") (auto simp: less_imp_le)
        ultimately show ?thesis using piv by simp
      qed
    qed
    have right': "\<forall>p. l' \<le> p \<and> p < lst \<longrightarrow> key (?xs ! pivot) \<le> key (?xs ! p)"
    proof (intro allI impI)
      fix p assume p: "l' \<le> p \<and> p < lst"
      show "key (?xs ! pivot) \<le> key (?xs ! p)"
      proof (cases "p = l'")
        case True
        then show ?thesis using bounds f'(4) by (simp add: nth_iter_swap piv[simplified])
      next
        case False
        then have "l' < p" "p \<noteq> f'" using p \<open>f' < l'\<close> by auto
        then have "?xs ! p = xs ! p" using bounds by (simp add: nth_iter_swap)
        moreover have "key (xs ! pivot) \<le> key (xs ! p)"
          using p \<open>l' < p\<close> less.prems(6) l'(5) by (cases "l \<le> p") (auto simp: less_imp_le)
        ultimately show ?thesis using piv by simp
      qed
    qed
    have sent': "\<exists>i. Suc f' \<le> i \<and> i < lst \<and> key (?xs ! pivot) \<le> key (?xs ! i)"
      using right' True bounds less.prems(3) by (intro exI[of _ l']) auto
    from less.IH[OF bounds(3) _ _ _ _ left' right' sent'] bounds True less.prems(3,4)
    obtain cut ys where r: "unguarded_partition ?cmp pivot (Suc f') l' ?xs = Some (cut, ys)"
      "Suc f' \<le> cut" "cut < lst" "mset ys = mset ?xs" "length ys = length ?xs"
      "\<forall>i. i \<le> pivot \<or> lst \<le> i \<longrightarrow> ys ! i = ?xs ! i"
      "\<forall>p. pivot < p \<and> p < cut \<longrightarrow> key (ys ! p) \<le> key (ys ! pivot)"
      "\<forall>p. cut \<le> p \<and> p < lst \<longrightarrow> key (ys ! pivot) \<le> key (ys ! p)"
      by auto
    have out: "ys ! i = xs ! i" if "i \<le> pivot \<or> lst \<le> i" for i
    proof -
      have "i \<noteq> f'" "i \<noteq> l'" using that bounds less.prems(3) True by auto
      then have "?xs ! i = xs ! i" using bounds by (simp add: nth_iter_swap)
      then show ?thesis using r(6) that by metis
    qed
    show ?thesis
      unfolding eq r(1) using r(2-5,7,8) out f'(2) bounds by (auto simp: mset_iter_swap)
  qed
qed

subsection \<open>The heap sort\<close>

lemma heap_parent_less: "0 < c \<Longrightarrow> heap_parent c < c"
  by (simp add: heap_parent_def)

lemma heap_parent_children: "0 < c \<Longrightarrow> heap_parent c = h \<longleftrightarrow> c = 2 * h + 1 \<or> c = 2 * h + 2"
  unfolding heap_parent_def by (cases c) auto

lemma in_subtree_ge: "in_subtree k h \<Longrightarrow> k \<le> h"
  by (induction k h rule: in_subtree.induct) (subst (asm) in_subtree.simps, auto split: if_splits)

lemma in_subtree_refl: "in_subtree k k"
  by (subst in_subtree.simps) simp

lemma in_subtree_parent:
  assumes "in_subtree k h" "h \<noteq> k"
  shows "in_subtree k (heap_parent h)" "k \<le> heap_parent h" "0 < h"
proof -
  have "k < h" using in_subtree_ge[OF assms(1)] assms(2) by simp
  then show "in_subtree k (heap_parent h)"
    using assms(1) by (subst (asm) in_subtree.simps) (simp add: heap_parent_def)
  then show "k \<le> heap_parent h" by (rule in_subtree_ge)
  show "0 < h" using \<open>k < h\<close> by simp
qed

lemma in_subtree_child:
  assumes "in_subtree k h" "0 < c" "heap_parent c = h"
  shows "in_subtree k c"
proof -
  have "h < c" using heap_parent_less[OF assms(2)] assms(3) by simp
  then have "\<not> c \<le> k" using in_subtree_ge[OF assms(1)] by simp
  then show ?thesis using assms(1,3) by (subst in_subtree.simps) (simp add: heap_parent_def)
qed

lemma mset_update_swap:
  assumes "i \<noteq> j" "i < length xs" "j < length xs"
  shows "mset (xs[i := xs ! j, j := v]) = mset (xs[i := v])"
proof -
  have "mset (xs[i := xs ! j, j := v]) = add_mset v (mset (xs[i := xs ! j]) - {#xs ! j#})"
    using assms by (simp add: mset_update)
  also have "mset (xs[i := xs ! j]) = add_mset (xs ! j) (mset xs - {#xs ! i#})"
    using assms by (simp add: mset_update)
  finally show ?thesis using assms by (simp add: mset_update)
qed

lemma hole_move_down:
  fixes key :: "'a \<Rightarrow> real"
  assumes inv: "hole_inv key first len k val xs0 h xs"
    and c: "0 < c" "c < len" "heap_parent c = h" and len: "first + len \<le> length xs"
    and best: "\<forall>c'. 0 < c' \<and> c' < len \<and> heap_parent c' = h \<longrightarrow> key (xs ! (first + c')) \<le> key (xs ! (first + c))"
  shows "hole_inv key first len k val xs0 c (xs[first + h := xs ! (first + c)])"
proof -
  let ?xs = "xs[first + h := xs ! (first + c)]"
  from inv have h: "h < len" "in_subtree k h" "heap_except key first len k {h} xs"
    "h \<noteq> k \<longrightarrow> (\<forall>c. 0 < c \<and> c < len \<and> heap_parent c = h
                     \<longrightarrow> key (xs ! (first + c)) \<le> key (xs ! (first + heap_parent h)))"
    "length xs = length xs0" "\<forall>i. i < first \<or> first + len \<le> i \<longrightarrow> xs ! i = xs0 ! i"
    "mset (xs[first + h := val]) = mset (xs0[first + k := val])"
    unfolding hole_inv_def by blast+
  have hc: "h < c" using heap_parent_less[OF c(1)] c(3) by simp
  have kh: "k \<le> h" by (rule in_subtree_ge[OF h(2)])
  have nth: "?xs ! (first + i) = (if i = h then xs ! (first + c) else xs ! (first + i))" for i
    using h(1) len by (simp add: nth_list_update)
  have 1: "in_subtree k c" by (rule in_subtree_child[OF h(2) c(1,3)])
  have 2: "heap_except key first len k {c} ?xs"
    unfolding heap_except_def
  proof (intro allI impI)
    fix d assume d: "0 < d \<and> d < len \<and> k \<le> heap_parent d \<and> d \<notin> {c} \<and> heap_parent d \<notin> {c}"
    have pd: "heap_parent d < d" using d heap_parent_less by simp
    consider (a) "d = h" | (b) "heap_parent d = h" | (c) "d \<noteq> h" "heap_parent d \<noteq> h" by blast
    then show "key (?xs ! (first + d)) \<le> key (?xs ! (first + heap_parent d))"
    proof cases
      case a
      then have "h \<noteq> k" using d pd by auto
      with h(4) c have "key (xs ! (first + c)) \<le> key (xs ! (first + heap_parent h))" by blast
      then show ?thesis using a pd by (simp add: nth)
    next
      case b
      then have "key (xs ! (first + d)) \<le> key (xs ! (first + c))" using best d by blast
      then show ?thesis using b pd by (simp add: nth)
    next
      case c
      then have "key (xs ! (first + d)) \<le> key (xs ! (first + heap_parent d))"
        using h(3) d unfolding heap_except_def by blast
      then show ?thesis using c by (simp add: nth)
    qed
  qed
  have 3: "\<forall>d. 0 < d \<and> d < len \<and> heap_parent d = c
            \<longrightarrow> key (?xs ! (first + d)) \<le> key (?xs ! (first + heap_parent c))"
  proof (intro allI impI)
    fix d assume d: "0 < d \<and> d < len \<and> heap_parent d = c"
    then have "d \<noteq> h" "heap_parent d \<noteq> h" "k \<le> heap_parent d"
      using hc heap_parent_less[of d] kh by auto
    then have "key (xs ! (first + d)) \<le> key (xs ! (first + c))"
      using h(3) d unfolding heap_except_def by fastforce
    then show "key (?xs ! (first + d)) \<le> key (?xs ! (first + heap_parent c))"
      using \<open>d \<noteq> h\<close> c(3) by (simp add: nth)
  qed
  have 4: "length ?xs = length xs0" using h(5) by simp
  have 5: "\<forall>i. i < first \<or> first + len \<le> i \<longrightarrow> ?xs ! i = xs0 ! i"
    using h(1,6) by (auto simp: nth_list_update)
  have "mset (?xs[first + c := val]) = mset (xs[first + h := val])"
    using hc h(1) c(2) len by (intro mset_update_swap) auto
  then have 6: "mset (?xs[first + c := val]) = mset (xs0[first + k := val])" using h(7) by simp
  show ?thesis
    unfolding hole_inv_def using c(2) 1 2 3 4 5 6 by blast
qed

lemma hole_move_up:
  fixes key :: "'a \<Rightarrow> real"
  assumes inv: "hole_inv key first len k val xs0 h xs" and hk: "h \<noteq> k"
    and len: "first + len \<le> length xs"
    and below: "\<forall>c. 0 < c \<and> c < len \<and> heap_parent c = h \<longrightarrow> key (xs ! (first + c)) \<le> key val"
    and lt: "key (xs ! (first + heap_parent h)) < key val"
  shows "hole_inv key first len k val xs0 (heap_parent h) (xs[first + h := xs ! (first + heap_parent h)])"
    and "\<forall>c. 0 < c \<and> c < len \<and> heap_parent c = heap_parent h
            \<longrightarrow> key ((xs[first + h := xs ! (first + heap_parent h)]) ! (first + c)) \<le> key val"
proof -
  let ?p = "heap_parent h"
  let ?xs = "xs[first + h := xs ! (first + ?p)]"
  from inv have h: "h < len" "in_subtree k h" "heap_except key first len k {h} xs"
    "h \<noteq> k \<longrightarrow> (\<forall>c. 0 < c \<and> c < len \<and> heap_parent c = h
                     \<longrightarrow> key (xs ! (first + c)) \<le> key (xs ! (first + heap_parent h)))"
    "length xs = length xs0" "\<forall>i. i < first \<or> first + len \<le> i \<longrightarrow> xs ! i = xs0 ! i"
    "mset (xs[first + h := val]) = mset (xs0[first + k := val])"
    unfolding hole_inv_def by blast+
  note sub = in_subtree_parent[OF h(2) hk]
  have ph: "?p < h" using heap_parent_less[OF sub(3)] .
  have nth: "?xs ! (first + i) = (if i = h then xs ! (first + ?p) else xs ! (first + i))" for i
    using h(1) len by (simp add: nth_list_update)
  have pair: "key (xs ! (first + d)) \<le> key (xs ! (first + ?p))"
    if "0 < d" "d < len" "heap_parent d = ?p" "d \<noteq> h" for d
    using h(3) that sub(2) ph unfolding heap_except_def by fastforce
  have 2: "heap_except key first len k {?p} ?xs"
    unfolding heap_except_def
  proof (intro allI impI)
    fix d assume d: "0 < d \<and> d < len \<and> k \<le> heap_parent d \<and> d \<notin> {?p} \<and> heap_parent d \<notin> {?p}"
    have pd: "heap_parent d < d" using d heap_parent_less by simp
    have dh: "d \<noteq> h" using d by auto
    show "key (?xs ! (first + d)) \<le> key (?xs ! (first + heap_parent d))"
    proof (cases "heap_parent d = h")
      case True
      then have "key (xs ! (first + d)) \<le> key (xs ! (first + ?p))" using h(4) hk d by blast
      then show ?thesis using True dh by (simp add: nth)
    next
      case False
      then have "key (xs ! (first + d)) \<le> key (xs ! (first + heap_parent d))"
        using h(3) d dh unfolding heap_except_def by blast
      then show ?thesis using False dh by (simp add: nth)
    qed
  qed
  have 3: "?p \<noteq> k \<longrightarrow> (\<forall>d. 0 < d \<and> d < len \<and> heap_parent d = ?p
            \<longrightarrow> key (?xs ! (first + d)) \<le> key (?xs ! (first + heap_parent ?p)))"
  proof (intro allI impI)
    fix d assume pk: "?p \<noteq> k" and d: "0 < d \<and> d < len \<and> heap_parent d = ?p"
    note sub' = in_subtree_parent[OF sub(1) pk]
    have pp: "heap_parent ?p < ?p" using heap_parent_less[OF sub'(3)] .
    have up: "key (xs ! (first + ?p)) \<le> key (xs ! (first + heap_parent ?p))"
      using h(3) sub' ph pp h(1) unfolding heap_except_def by fastforce
    have "key (?xs ! (first + d)) \<le> key (xs ! (first + ?p))"
      using pair[of d] d by (cases "d = h") (simp_all add: nth)
    moreover have "?xs ! (first + heap_parent ?p) = xs ! (first + heap_parent ?p)"
      using pp ph by (simp add: nth)
    ultimately show "key (?xs ! (first + d)) \<le> key (?xs ! (first + heap_parent ?p))"
      using up by simp
  qed
  have 4: "length ?xs = length xs0" using h(5) by simp
  have 5: "\<forall>i. i < first \<or> first + len \<le> i \<longrightarrow> ?xs ! i = xs0 ! i"
    using h(1,6) by (auto simp: nth_list_update)
  have "mset (?xs[first + ?p := val]) = mset (xs[first + h := val])"
    using ph h(1) len by (intro mset_update_swap) auto
  then have 6: "mset (?xs[first + ?p := val]) = mset (xs0[first + k := val])" using h(7) by simp
  show "hole_inv key first len k val xs0 ?p ?xs"
    unfolding hole_inv_def using ph h(1) sub(1) 2 3 4 5 6 by auto
  show "\<forall>c. 0 < c \<and> c < len \<and> heap_parent c = ?p \<longrightarrow> key (?xs ! (first + c)) \<le> key val"
  proof (intro allI impI)
    fix d assume d: "0 < d \<and> d < len \<and> heap_parent d = ?p"
    have "key (?xs ! (first + d)) \<le> key (xs ! (first + ?p))"
      using pair[of d] d by (cases "d = h") (simp_all add: nth)
    then show "key (?xs ! (first + d)) \<le> key val" using lt by simp
  qed
qed

lemma adjust_heap_loop_inv:
  fixes key :: "'a \<Rightarrow> real"
  assumes "hole_inv key first len k val xs0 h xs" "first + len \<le> length xs"
  shows "\<exists>h' xs'. adjust_heap_loop (\<lambda>a b. key a < key b) first len h h xs = (h', h', xs') \<and>
           hole_inv key first len k val xs0 h' xs' \<and> \<not> h' < (len - 1) div 2"
  using assms
proof (induction "len - h" arbitrary: h xs rule: less_induct)
  case less
  let ?cmp = "\<lambda>a b. key a < key b"
  show ?case
  proof (cases "h < (len - 1) div 2")
    case False
    then show ?thesis using less.prems(1) by (subst adjust_heap_loop.simps) simp
  next
    case True
    define c where "c = (if key (xs ! (first + (2 * h + 2))) < key (xs ! (first + (2 * h + 1)))
                         then 2 * h + 1 else 2 * h + 2)"
    have c2: "2 * h + 2 < len" using True by linarith
    have cb: "0 < c" "c < len" "heap_parent c = h" "h < c"
      using c2 by (auto simp: c_def heap_parent_def)
    have best: "\<forall>c'. 0 < c' \<and> c' < len \<and> heap_parent c' = h \<longrightarrow> key (xs ! (first + c')) \<le> key (xs ! (first + c))"
    proof (intro allI impI)
      fix c' assume "0 < c' \<and> c' < len \<and> heap_parent c' = h"
      then have "c' = 2 * h + 1 \<or> c' = 2 * h + 2" using heap_parent_children[of c' h] by blast
      then show "key (xs ! (first + c')) \<le> key (xs ! (first + c))"
        unfolding c_def by auto
    qed
    note inv' = hole_move_down[OF less.prems(1) cb(1-3) less.prems(2) best]
    have eq: "adjust_heap_loop ?cmp first len h h xs
                = adjust_heap_loop ?cmp first len c c (xs[first + h := xs ! (first + c)])"
      using True by (subst adjust_heap_loop.simps) (simp add: c_def Let_def)
    have "len - c < len - h" using cb by simp
    from less.hyps[OF this inv'] less.prems(2)
    show ?thesis unfolding eq by simp
  qed
qed

lemma push_heap_loop_post:
  fixes key :: "'a \<Rightarrow> real"
  assumes "hole_inv key first len k val xs0 h xs" "first + len \<le> length xs"
    "\<forall>c. 0 < c \<and> c < len \<and> heap_parent c = h \<longrightarrow> key (xs ! (first + c)) \<le> key val"
  shows "heap_except key first len k {} (push_heap_loop (\<lambda>a b. key a < key b) first h k val xs) \<and>
         length (push_heap_loop (\<lambda>a b. key a < key b) first h k val xs) = length xs0 \<and>
         (\<forall>i. i < first \<or> first + len \<le> i \<longrightarrow> push_heap_loop (\<lambda>a b. key a < key b) first h k val xs ! i = xs0 ! i) \<and>
         mset (push_heap_loop (\<lambda>a b. key a < key b) first h k val xs) = mset (xs0[first + k := val])"
  using assms
proof (induction h arbitrary: xs rule: less_induct)
  case (less h)
  let ?cmp = "\<lambda>a b. key a < key b"
  from less.prems(1) have h: "h < len" "in_subtree k h" "heap_except key first len k {h} xs"
    "length xs = length xs0" "\<forall>i. i < first \<or> first + len \<le> i \<longrightarrow> xs ! i = xs0 ! i"
    "mset (xs[first + h := val]) = mset (xs0[first + k := val])"
    unfolding hole_inv_def by blast+
  have kh: "k \<le> h" by (rule in_subtree_ge[OF h(2)])
  show ?case
  proof (cases "k < h \<and> key (xs ! (first + heap_parent h)) < key val")
    case True
    then have hk: "h \<noteq> k" by simp
    note up = hole_move_up[OF less.prems(1) hk less.prems(2,3) True[THEN conjunct2]]
    have ph: "heap_parent h < h" using True by (intro heap_parent_less) simp
    have eq: "push_heap_loop ?cmp first h k val xs
        = push_heap_loop ?cmp first (heap_parent h) k val (xs[first + h := xs ! (first + heap_parent h)])"
      using True by (subst push_heap_loop.simps) (simp add: heap_parent_def Let_def)
    from less.IH[OF ph up(1) _ up(2)] less.prems(2)
    show ?thesis unfolding eq by simp
  next
    case False
    have eq: "push_heap_loop ?cmp first h k val xs = xs[first + h := val]"
      using False by (subst push_heap_loop.simps) (auto simp: heap_parent_def Let_def)
    have nth: "(xs[first + h := val]) ! (first + i) = (if i = h then val else xs ! (first + i))" for i
      using h(1) less.prems(2) by (simp add: nth_list_update)
    have "heap_except key first len k {} (xs[first + h := val])"
      unfolding heap_except_def
    proof (intro allI impI)
      fix d assume d: "0 < d \<and> d < len \<and> k \<le> heap_parent d \<and> d \<notin> {} \<and> heap_parent d \<notin> {}"
      have pd: "heap_parent d < d" using d heap_parent_less by simp
      consider (a) "d = h" | (b) "heap_parent d = h" | (c) "d \<noteq> h" "heap_parent d \<noteq> h" by blast
      then show "key ((xs[first + h := val]) ! (first + d)) \<le> key ((xs[first + h := val]) ! (first + heap_parent d))"
      proof cases
        case a
        then have "k < h" using d pd by simp
        with False have "key val \<le> key (xs ! (first + heap_parent h))" by simp
        then show ?thesis using a pd by (simp add: nth)
      next
        case b
        then have "key (xs ! (first + d)) \<le> key val" using less.prems(3) d by blast
        then show ?thesis using b pd by (simp add: nth)
      next
        case c
        then have "key (xs ! (first + d)) \<le> key (xs ! (first + heap_parent d))"
          using h(3) d unfolding heap_except_def by blast
        then show ?thesis using c by (simp add: nth)
      qed
    qed
    moreover have "\<forall>i. i < first \<or> first + len \<le> i \<longrightarrow> (xs[first + h := val]) ! i = xs0 ! i"
      using h(1,5) by (auto simp: nth_list_update)
    ultimately show ?thesis unfolding eq using h(4,6) by simp
  qed
qed

lemma adjust_heap_post:
  fixes key :: "'a \<Rightarrow> real"
  assumes "k < len" "first + len \<le> length xs0" "heap_except key first len (Suc k) {} xs0"
  shows "heap_except key first len k {} (adjust_heap (\<lambda>a b. key a < key b) first k len val xs0) \<and>
         length (adjust_heap (\<lambda>a b. key a < key b) first k len val xs0) = length xs0 \<and>
         (\<forall>i. i < first \<or> first + len \<le> i \<longrightarrow> adjust_heap (\<lambda>a b. key a < key b) first k len val xs0 ! i = xs0 ! i) \<and>
         mset (adjust_heap (\<lambda>a b. key a < key b) first k len val xs0) = mset (xs0[first + k := val])"
proof -
  let ?cmp = "\<lambda>a b. key a < key b"
  have "heap_except key first len k {k} xs0"
    using assms(3) unfolding heap_except_def by (auto simp: Suc_le_eq le_less)
  then have inv0: "hole_inv key first len k val xs0 k xs0"
    unfolding hole_inv_def using assms(1) in_subtree_refl by simp
  from adjust_heap_loop_inv[OF inv0 assms(2)]
  obtain h xs where l: "adjust_heap_loop ?cmp first len k k xs0 = (h, h, xs)"
    "hole_inv key first len k val xs0 h xs" "\<not> h < (len - 1) div 2"
    by blast
  have lx: "first + len \<le> length xs" using l(2) assms(2) unfolding hole_inv_def by simp
  have hl: "h < len" using l(2) unfolding hole_inv_def by simp
  show ?thesis
  proof (cases "len mod 2 = 0 \<and> h = (len - 2) div 2")
    case True
    define c where "c = 2 * h + 1"
    have c1: "c = len - 1" "2 \<le> len" using True hl unfolding c_def by presburger+
    have cb: "0 < c" "c < len" "heap_parent c = h" using c1 by (auto simp: c_def heap_parent_def)
    have best: "\<forall>c'. 0 < c' \<and> c' < len \<and> heap_parent c' = h \<longrightarrow> key (xs ! (first + c')) \<le> key (xs ! (first + c))"
    proof (intro allI impI)
      fix c' assume c': "0 < c' \<and> c' < len \<and> heap_parent c' = h"
      then have "c' = 2 * h + 1 \<or> c' = 2 * h + 2" using heap_parent_children[of c' h] by blast
      with c' c1 have "c' = c" unfolding c_def by presburger
      then show "key (xs ! (first + c')) \<le> key (xs ! (first + c))" by simp
    qed
    note inv' = hole_move_down[OF l(2) cb lx best]
    have leaf: "\<forall>d. 0 < d \<and> d < len \<and> heap_parent d = c
              \<longrightarrow> key ((xs[first + h := xs ! (first + c)]) ! (first + d)) \<le> key val"
    proof (intro allI impI)
      fix d assume d: "0 < d \<and> d < len \<and> heap_parent d = c"
      then have "d = 2 * c + 1 \<or> d = 2 * c + 2" using heap_parent_children[of d c] by blast
      with d c1 have False by presburger
      then show "key ((xs[first + h := xs ! (first + c)]) ! (first + d)) \<le> key val" ..
    qed
    have eq: "adjust_heap ?cmp first k len val xs0
                = push_heap_loop ?cmp first c k val (xs[first + h := xs ! (first + c)])"
      using True l(1) by (simp add: adjust_heap_def Let_def c_def)
    from push_heap_loop_post[OF inv' _ leaf] lx
    show ?thesis unfolding eq by simp
  next
    case False
    have leaf: "\<forall>d. 0 < d \<and> d < len \<and> heap_parent d = h \<longrightarrow> key (xs ! (first + d)) \<le> key val"
    proof (intro allI impI)
      fix d assume d: "0 < d \<and> d < len \<and> heap_parent d = h"
      then have "d = 2 * h + 1 \<or> d = 2 * h + 2" using heap_parent_children[of d h] by blast
      with d l(3) False have False by presburger
      then show "key (xs ! (first + d)) \<le> key val" ..
    qed
    have eq: "adjust_heap ?cmp first k len val xs0 = push_heap_loop ?cmp first h k val xs"
      using False l(1) by (auto simp: adjust_heap_def Let_def)
    from push_heap_loop_post[OF l(2) lx leaf]
    show ?thesis unfolding eq by simp
  qed
qed

lemma make_heap_loop_post:
  fixes key :: "'a \<Rightarrow> real"
  assumes "p < len" "first + len \<le> length xs" "heap_except key first len (Suc p) {} xs"
  shows "heap_except key first len 0 {} (make_heap_loop (\<lambda>a b. key a < key b) first len p xs) \<and>
         length (make_heap_loop (\<lambda>a b. key a < key b) first len p xs) = length xs \<and>
         (\<forall>i. i < first \<or> first + len \<le> i \<longrightarrow> make_heap_loop (\<lambda>a b. key a < key b) first len p xs ! i = xs ! i) \<and>
         mset (make_heap_loop (\<lambda>a b. key a < key b) first len p xs) = mset xs"
  using assms
proof (induction p arbitrary: xs)
  case 0
  from adjust_heap_post[OF 0, of "xs ! first"]
  show ?case by simp
next
  case (Suc p)
  let ?ys = "adjust_heap (\<lambda>a b. key a < key b) first (Suc p) len (xs ! (first + Suc p)) xs"
  from adjust_heap_post[OF Suc.prems, of "xs ! (first + Suc p)"]
  have a: "heap_except key first len (Suc p) {} ?ys" "length ?ys = length xs"
    "\<forall>i. i < first \<or> first + len \<le> i \<longrightarrow> ?ys ! i = xs ! i" "mset ?ys = mset xs"
    by simp_all
  have "p < len" "first + len \<le> length ?ys" using Suc.prems(1,2) a(2) by simp_all
  from Suc.IH[OF this a(1)] a(2,3,4)
  show ?case by simp
qed

lemma make_heap_post:
  fixes key :: "'a \<Rightarrow> real"
  assumes "first \<le> lst" "lst \<le> length xs"
  shows "heap_except key first (lst - first) 0 {} (make_heap (\<lambda>a b. key a < key b) first lst xs) \<and>
         length (make_heap (\<lambda>a b. key a < key b) first lst xs) = length xs \<and>
         (\<forall>i. i < first \<or> lst \<le> i \<longrightarrow> make_heap (\<lambda>a b. key a < key b) first lst xs ! i = xs ! i) \<and>
         mset (make_heap (\<lambda>a b. key a < key b) first lst xs) = mset xs"
proof (cases "lst - first < 2")
  case True
  have "heap_except key first (lst - first) 0 {} xs"
    using True unfolding heap_except_def by auto
  then show ?thesis using True by (simp add: make_heap_def)
next
  case False
  define len where "len = lst - first"
  define p where "p = (len - 2) div 2"
  have b: "p < len" "first + len \<le> length xs" using False assms by (auto simp: len_def p_def)
  have "heap_except key first len (Suc p) {} xs"
    unfolding heap_except_def
  proof (intro allI impI)
    fix c assume c: "0 < c \<and> c < len \<and> Suc p \<le> heap_parent c \<and> c \<notin> {} \<and> heap_parent c \<notin> {}"
    then have False unfolding heap_parent_def p_def by presburger
    then show "key (xs ! (first + c)) \<le> key (xs ! (first + heap_parent c))" ..
  qed
  from make_heap_loop_post[OF b this] False assms
  show ?thesis by (simp add: make_heap_def len_def[symmetric] p_def[symmetric] Let_def) (simp add: len_def)
qed

lemma range_perm:
  assumes "length ys = length xs" "mset ys = mset xs" "\<forall>i. i < a \<or> b \<le> i \<longrightarrow> ys ! i = xs ! i"
    "a \<le> p" "p < b" "b \<le> length xs"
  shows "\<exists>p'. a \<le> p' \<and> p' < b \<and> ys ! p = xs ! p'"
proof -
  have dec: "zs = take a zs @ take (b - a) (drop a zs) @ drop b zs" if "length zs = length xs" for zs :: "'a list"
  proof -
    have "drop (b - a) (drop a zs) = drop b zs" using assms(4,5) by simp
    then have "drop a zs = take (b - a) (drop a zs) @ drop b zs"
      by (metis append_take_drop_id)
    then show ?thesis by (metis append_take_drop_id)
  qed
  have t: "take a ys = take a xs"
    using assms(1,3) by (intro nth_equalityI) auto
  have d: "drop b ys = drop b xs"
    using assms(1,3,6) by (intro nth_equalityI) auto
  have "mset (take a ys) + mset (take (b - a) (drop a ys)) + mset (drop b ys)
      = mset (take a xs) + mset (take (b - a) (drop a xs)) + mset (drop b xs)"
    using dec[of ys] dec[of xs] assms(1,2) by (metis mset_append union_assoc)
  then have m: "mset (take (b - a) (drop a ys)) = mset (take (b - a) (drop a xs))"
    unfolding t d by simp
  have "ys ! p = take (b - a) (drop a ys) ! (p - a)"
    using assms(1,4,5,6) by simp
  moreover have "p - a < length (take (b - a) (drop a ys))"
    using assms(1,4,5,6) by simp
  ultimately have "ys ! p \<in> set (take (b - a) (drop a ys))"
    by (metis nth_mem)
  then have "ys ! p \<in> set (take (b - a) (drop a xs))"
    using m by (metis set_mset_mset)
  then obtain j where j: "j < length (take (b - a) (drop a xs))" "take (b - a) (drop a xs) ! j = ys ! p"
    by (auto simp: in_set_conv_nth)
  then have "j < b - a" "xs ! (a + j) = ys ! p" using assms(6) by auto
  then show ?thesis by (intro exI[of _ "a + j"]) auto
qed

lemma heap_root_max:
  fixes key :: "'a \<Rightarrow> real"
  assumes "heap_except key first len 0 {} xs" "c < len"
  shows "key (xs ! (first + c)) \<le> key (xs ! first)"
  using assms(2)
proof (induction c rule: less_induct)
  case (less c)
  show ?case
  proof (cases "c = 0")
    case True
    then show ?thesis by simp
  next
    case False
    then have p: "heap_parent c < c" by (intro heap_parent_less) simp
    then have "key (xs ! (first + heap_parent c)) \<le> key (xs ! first)"
      using less by simp
    moreover have "key (xs ! (first + c)) \<le> key (xs ! (first + heap_parent c))"
      using assms(1) False less.prems unfolding heap_except_def by simp
    ultimately show ?thesis by simp
  qed
qed

lemma pop_heap_post:
  fixes key :: "'a \<Rightarrow> real"
  assumes r: "0 < r" and len: "first + r < length xs" and heap: "heap_except key first (Suc r) 0 {} xs"
  defines "ys \<equiv> pop_heap (\<lambda>a b. key a < key b) first (first + r) (first + r) xs"
  shows "heap_except key first r 0 {} ys" "length ys = length xs" "mset ys = mset xs"
    "ys ! (first + r) = xs ! first" "\<forall>i. i < first \<or> first + r < i \<longrightarrow> ys ! i = xs ! i"
    "\<forall>i<r. \<exists>j\<le>r. ys ! (first + i) = xs ! (first + j)"
proof -
  let ?xs0 = "xs[first + r := xs ! first]"
  let ?val = "xs ! (first + r)"
  have ys: "ys = adjust_heap (\<lambda>a b. key a < key b) first 0 r ?val ?xs0"
    by (simp add: ys_def pop_heap_def)
  have h0: "heap_except key first r (Suc 0) {} ?xs0"
    unfolding heap_except_def
  proof (intro allI impI)
    fix c assume c: "0 < c \<and> c < r \<and> Suc 0 \<le> heap_parent c \<and> c \<notin> {} \<and> heap_parent c \<notin> {}"
    have "heap_parent c < c" using c heap_parent_less by simp
    then have "?xs0 ! (first + c) = xs ! (first + c)" "?xs0 ! (first + heap_parent c) = xs ! (first + heap_parent c)"
      using c by simp_all
    moreover have "key (xs ! (first + c)) \<le> key (xs ! (first + heap_parent c))"
      using heap c unfolding heap_except_def by simp
    ultimately show "key (?xs0 ! (first + c)) \<le> key (?xs0 ! (first + heap_parent c))" by simp
  qed
  have l0: "first + r \<le> length ?xs0" using len by simp
  from adjust_heap_post[OF r l0 h0, of ?val]
  have a: "heap_except key first r 0 {} ys" "length ys = length ?xs0"
    "\<forall>i. i < first \<or> first + r \<le> i \<longrightarrow> ys ! i = ?xs0 ! i"
    "mset ys = mset (?xs0[first + 0 := ?val])"
    unfolding ys by simp_all
  show "heap_except key first r 0 {} ys" by (rule a(1))
  show l: "length ys = length xs" using a(2) by simp
  have sw: "mset (?xs0[first := ?val]) = mset xs"
    using mset_swap[of first xs "first + r"] len by simp
  show m: "mset ys = mset xs" using a(4) sw by simp
  show "ys ! (first + r) = xs ! first" using a(3) len by simp
  show "\<forall>i. i < first \<or> first + r < i \<longrightarrow> ys ! i = xs ! i"
    using a(3) by (auto simp: nth_list_update)
  show "\<forall>i<r. \<exists>j\<le>r. ys ! (first + i) = xs ! (first + j)"
  proof (intro allI impI)
    fix i assume i: "i < r"
    let ?ws = "?xs0[first := ?val]"
    have out: "\<forall>i. i < first \<or> first + r \<le> i \<longrightarrow> ys ! i = ?ws ! i"
      using a(3) r by (auto simp: nth_list_update)
    have "length ys = length ?ws" "mset ys = mset ?ws" "first + r \<le> length ?ws"
      using a(2,4) len by simp_all
    from range_perm[OF this(1,2) out _ _ this(3), of "first + i"] i
    obtain p' where p': "first \<le> p'" "p' < first + r" "ys ! (first + i) = ?ws ! p'" by auto
    show "\<exists>j\<le>r. ys ! (first + i) = xs ! (first + j)"
    proof (cases "p' = first")
      case True
      then have "?ws ! p' = xs ! (first + r)" using len by simp
      then show ?thesis using p'(3) by (intro exI[of _ r]) simp
    next
      case False
      then have "?ws ! p' = xs ! (first + (p' - first))" using p' len by simp
      then show ?thesis using p' by (intro exI[of _ "p' - first"]) auto
    qed
  qed
qed

lemma sort_heap_loop_post:
  fixes key :: "'a \<Rightarrow> real"
  assumes "first + r < lst" "lst \<le> length xs" "heap_except key first (Suc r) 0 {} xs"
    and S: "\<forall>p q. first + r < p \<and> p \<le> q \<and> q < lst \<longrightarrow> key (xs ! p) \<le> key (xs ! q)"
    and B: "\<forall>i q. i \<le> r \<and> first + r < q \<and> q < lst \<longrightarrow> key (xs ! (first + i)) \<le> key (xs ! q)"
  defines "ys \<equiv> fold (\<lambda>l ys. pop_heap (\<lambda>a b. key a < key b) first l l ys) (rev [Suc first..<Suc (first + r)]) xs"
  shows "mset ys = mset xs \<and> length ys = length xs \<and>
         (\<forall>i. i < first \<or> lst \<le> i \<longrightarrow> ys ! i = xs ! i) \<and>
         (\<forall>p q. first \<le> p \<and> p \<le> q \<and> q < lst \<longrightarrow> key (ys ! p) \<le> key (ys ! q))"
  using assms(1-5) unfolding ys_def
proof (induction r arbitrary: xs)
  case 0
  have "key (xs ! p) \<le> key (xs ! q)" if "first \<le> p" "p \<le> q" "q < lst" for p q
  proof (cases "p = first")
    case True
    then show ?thesis using 0(5)[rule_format, of 0 q] that by (cases "q = first") auto
  next
    case False
    then show ?thesis using 0(4) that by simp
  qed
  then show ?case by simp
next
  case (Suc r)
  let ?pop = "\<lambda>l ys. pop_heap (\<lambda>a b. key a < key b) first l l ys"
  define zs where "zs = ?pop (first + Suc r) xs"
  have len: "first + Suc r < length xs" using Suc.prems(1,2) by simp
  note pp = pop_heap_post[OF _ len Suc.prems(3), folded zs_def, simplified]
  have upt: "rev [Suc first..<Suc (first + Suc r)] = (first + Suc r) # rev [Suc first..<Suc (first + r)]"
    by simp
  have eq: "fold ?pop (rev [Suc first..<Suc (first + Suc r)]) xs
          = fold ?pop (rev [Suc first..<Suc (first + r)]) zs"
    unfolding upt by (simp add: zs_def)
  have b1: "first + r < lst" "lst \<le> length zs" using Suc.prems(1,2) pp(2) by simp_all
  have root: "key (xs ! (first + j)) \<le> key (xs ! first)" if "j \<le> Suc r" for j
    using heap_root_max[OF Suc.prems(3), of j] that by simp
  have zq: "zs ! q = xs ! q" if "first + Suc r < q" for q
    using pp(5) that by simp
  have S': "\<forall>p q. first + r < p \<and> p \<le> q \<and> q < lst \<longrightarrow> key (zs ! p) \<le> key (zs ! q)"
  proof (intro allI impI)
    fix p q assume a: "first + r < p \<and> p \<le> q \<and> q < lst"
    show "key (zs ! p) \<le> key (zs ! q)"
    proof (cases "p = first + Suc r")
      case True
      show ?thesis
      proof (cases "q = p")
        case True then show ?thesis by simp
      next
        case False
        then have "first + Suc r < q" using a True by simp
        then have "key (xs ! (first + 0)) \<le> key (xs ! q)" using Suc.prems(5) a by blast
        then show ?thesis using True pp(4) zq[OF \<open>first + Suc r < q\<close>] by simp
      qed
    next
      case False
      then have "first + Suc r < p" "first + Suc r < q" using a by simp_all
      then show ?thesis using zq Suc.prems(4) a by simp
    qed
  qed
  have B': "\<forall>i q. i \<le> r \<and> first + r < q \<and> q < lst \<longrightarrow> key (zs ! (first + i)) \<le> key (zs ! q)"
  proof (intro allI impI)
    fix i q assume a: "i \<le> r \<and> first + r < q \<and> q < lst"
    then obtain j where j: "j \<le> Suc r" "zs ! (first + i) = xs ! (first + j)"
      using pp(6) by (metis le_imp_less_Suc)
    show "key (zs ! (first + i)) \<le> key (zs ! q)"
    proof (cases "q = first + Suc r")
      case True
      then show ?thesis using j root pp(4) by simp
    next
      case False
      then have q: "first + Suc r < q" using a by simp
      then have "key (xs ! (first + j)) \<le> key (xs ! q)" using Suc.prems(5) j(1) a by blast
      then show ?thesis using j(2) zq[OF q] by simp
    qed
  qed
  from Suc.IH[OF b1 pp(1) S' B']
  have r: "mset (fold ?pop (rev [Suc first..<Suc (first + r)]) zs) = mset zs"
    "length (fold ?pop (rev [Suc first..<Suc (first + r)]) zs) = length zs"
    "\<forall>i. i < first \<or> lst \<le> i \<longrightarrow> fold ?pop (rev [Suc first..<Suc (first + r)]) zs ! i = zs ! i"
    "\<forall>p q. first \<le> p \<and> p \<le> q \<and> q < lst \<longrightarrow>
       key (fold ?pop (rev [Suc first..<Suc (first + r)]) zs ! p)
         \<le> key (fold ?pop (rev [Suc first..<Suc (first + r)]) zs ! q)"
    by blast+
  have out: "\<forall>i. i < first \<or> lst \<le> i \<longrightarrow> fold ?pop (rev [Suc first..<Suc (first + r)]) zs ! i = xs ! i"
    using r(3) pp(5) Suc.prems(1) by auto
  show ?case unfolding eq using r(1,2,4) pp(2,3) out by simp
qed

lemma partial_sort_post:
  fixes key :: "'a \<Rightarrow> real"
  assumes "first \<le> lst" "lst \<le> length xs"
  shows "mset (partial_sort (\<lambda>a b. key a < key b) first lst lst xs) = mset xs \<and>
         length (partial_sort (\<lambda>a b. key a < key b) first lst lst xs) = length xs \<and>
         (\<forall>i. i < first \<or> lst \<le> i \<longrightarrow> partial_sort (\<lambda>a b. key a < key b) first lst lst xs ! i = xs ! i) \<and>
         (\<forall>p q. first \<le> p \<and> p \<le> q \<and> q < lst \<longrightarrow>
            key (partial_sort (\<lambda>a b. key a < key b) first lst lst xs ! p)
              \<le> key (partial_sort (\<lambda>a b. key a < key b) first lst lst xs ! q))"
proof (cases "first = lst")
  case True
  then show ?thesis
    by (simp add: partial_sort_def heap_select_def sort_heap_def make_heap_def)
next
  case False
  let ?cmp = "\<lambda>a b. key a < key b"
  define hs where "hs = make_heap ?cmp first lst xs"
  define r where "r = lst - first - 1"
  have lst: "lst = Suc (first + r)" "lst - first = Suc r" using False assms(1) by (auto simp: r_def)
  from make_heap_post[OF assms, of key]
  have h: "heap_except key first (Suc r) 0 {} hs" "length hs = length xs"
    "\<forall>i. i < first \<or> lst \<le> i \<longrightarrow> hs ! i = xs ! i" "mset hs = mset xs"
    unfolding hs_def lst(2) by simp_all
  have eq: "partial_sort ?cmp first lst lst xs
      = fold (\<lambda>l ys. pop_heap ?cmp first l l ys) (rev [Suc first..<Suc (first + r)]) hs"
    unfolding partial_sort_def heap_select_def sort_heap_def hs_def using lst(1) by simp
  have b: "first + r < lst" "lst \<le> length hs" using lst(1) assms(2) h(2) by simp_all
  have S: "\<forall>p q. first + r < p \<and> p \<le> q \<and> q < lst \<longrightarrow> key (hs ! p) \<le> key (hs ! q)"
    using lst(1) by auto
  have B: "\<forall>i q. i \<le> r \<and> first + r < q \<and> q < lst \<longrightarrow> key (hs ! (first + i)) \<le> key (hs ! q)"
    using lst(1) by auto
  from sort_heap_loop_post[OF b h(1) S B] h(2,3,4)
  show ?thesis unfolding eq by simp
qed

subsection \<open>The introsort loop and the final insertion sort\<close>

lemma move_median_to_first_post:
  fixes key :: "'a \<Rightarrow> real"
  assumes "first < a" "a < b" "b < c" "c < lst" "lst \<le> length xs"
  defines "zs \<equiv> move_median_to_first (\<lambda>a b. key a < key b) first a b c xs"
  shows "mset zs = mset xs \<and> length zs = length xs \<and>
         (\<forall>i. i < first \<or> lst \<le> i \<longrightarrow> zs ! i = xs ! i) \<and>
         (\<exists>i. Suc first \<le> i \<and> i < lst \<and> key (zs ! first) \<le> key (zs ! i))"
proof -
  have len: "first < length xs" "a < length xs" "b < length xs" "c < length xs"
    using assms(1-5) by auto
  have sw: "mset (iter_swap first x xs) = mset xs \<and> length (iter_swap first x xs) = length xs \<and>
         (\<forall>i. i < first \<or> lst \<le> i \<longrightarrow> iter_swap first x xs ! i = xs ! i) \<and>
         (\<exists>i. Suc first \<le> i \<and> i < lst \<and> key (iter_swap first x xs ! first) \<le> key (iter_swap first x xs ! i))"
    if "x \<in> {a, b, c}" "y \<in> {a, b, c}" "y \<noteq> x" "key (xs ! x) \<le> key (xs ! y)" for x y
  proof -
    have xy: "x < length xs" "y < length xs" "first < x" "first < y" "x < lst" "y < lst"
      using that(1,2) assms(1-5) by auto
    have "iter_swap first x xs ! first = xs ! x" "iter_swap first x xs ! y = xs ! y"
      using xy len that(3) by (simp_all add: nth_iter_swap)
    then have "\<exists>i. Suc first \<le> i \<and> i < lst \<and> key (iter_swap first x xs ! first) \<le> key (iter_swap first x xs ! i)"
      using that(4) xy by (intro exI[of _ y]) simp
    moreover have "\<forall>i. i < first \<or> lst \<le> i \<longrightarrow> iter_swap first x xs ! i = xs ! i"
      using xy len by (auto simp: nth_iter_swap)
    ultimately show ?thesis using xy len by (simp add: mset_iter_swap)
  qed
  consider
      (1) "key (xs ! a) < key (xs ! b)" "key (xs ! b) < key (xs ! c)"
    | (2) "key (xs ! a) < key (xs ! b)" "\<not> key (xs ! b) < key (xs ! c)" "key (xs ! a) < key (xs ! c)"
    | (3) "key (xs ! a) < key (xs ! b)" "\<not> key (xs ! b) < key (xs ! c)" "\<not> key (xs ! a) < key (xs ! c)"
    | (4) "\<not> key (xs ! a) < key (xs ! b)" "key (xs ! a) < key (xs ! c)"
    | (5) "\<not> key (xs ! a) < key (xs ! b)" "\<not> key (xs ! a) < key (xs ! c)" "key (xs ! b) < key (xs ! c)"
    | (6) "\<not> key (xs ! a) < key (xs ! b)" "\<not> key (xs ! a) < key (xs ! c)" "\<not> key (xs ! b) < key (xs ! c)"
    by blast
  then show ?thesis
  proof cases
    case 1
    then have "zs = iter_swap first b xs" by (simp add: zs_def move_median_to_first_def)
    then show ?thesis using sw[of b c] 1 assms(2,3) by simp
  next
    case 2
    then have "zs = iter_swap first c xs" by (simp add: zs_def move_median_to_first_def)
    then show ?thesis using sw[of c b] 2 assms(2,3) by simp
  next
    case 3
    then have "zs = iter_swap first a xs" by (simp add: zs_def move_median_to_first_def)
    then show ?thesis using sw[of a b] 3 assms(2,3) by simp
  next
    case 4
    then have "zs = iter_swap first a xs" by (simp add: zs_def move_median_to_first_def)
    then show ?thesis using sw[of a c] 4 assms(2,3) by simp
  next
    case 5
    then have "zs = iter_swap first c xs" by (simp add: zs_def move_median_to_first_def)
    then show ?thesis using sw[of c a] 5 assms(2,3) by simp
  next
    case 6
    then have "zs = iter_swap first b xs" by (simp add: zs_def move_median_to_first_def)
    then show ?thesis using sw[of b a] 6 assms(2,3) by simp
  qed
qed

lemma unguarded_partition_pivot_post:
  fixes key :: "'a \<Rightarrow> real"
  assumes "S_threshold < lst - first" "lst \<le> length xs"
  shows "\<exists>cut ys. unguarded_partition_pivot (\<lambda>a b. key a < key b) first lst xs = Some (cut, ys) \<and>
           first < cut \<and> cut < lst \<and> mset ys = mset xs \<and> length ys = length xs \<and>
           (\<forall>i. i < first \<or> lst \<le> i \<longrightarrow> ys ! i = xs ! i) \<and>
           (\<forall>p q. first \<le> p \<and> p < cut \<and> cut \<le> q \<and> q < lst \<longrightarrow> key (ys ! p) \<le> key (ys ! q))"
proof -
  let ?cmp = "\<lambda>a b. key a < key b"
  define mid where "mid = first + (lst - first) div 2"
  define zs where "zs = move_median_to_first ?cmp first (first + 1) mid (lst - 1) xs"
  have sz: "16 < lst - first" using assms(1) by (simp add: S_threshold_def)
  have ord: "first < first + 1" "first + 1 < mid" "mid < lst - 1" "lst - 1 < lst"
    using sz by (auto simp: mid_def)
  from move_median_to_first_post[OF ord assms(2), of key]
  have z: "mset zs = mset xs" "length zs = length xs" "\<forall>i. i < first \<or> lst \<le> i \<longrightarrow> zs ! i = xs ! i"
    "\<exists>i. Suc first \<le> i \<and> i < lst \<and> key (zs ! first) \<le> key (zs ! i)"
    unfolding zs_def by blast+
  have b: "first < first + 1" "first + 1 \<le> lst" "lst \<le> lst" "lst \<le> length zs"
    using sz assms(2) z(2) by auto
  have l: "\<forall>p. first < p \<and> p < first + 1 \<longrightarrow> key (zs ! p) \<le> key (zs ! first)" by auto
  have r: "\<forall>p. lst \<le> p \<and> p < lst \<longrightarrow> key (zs ! first) \<le> key (zs ! p)" by auto
  have s: "\<exists>i. first + 1 \<le> i \<and> i < lst \<and> key (zs ! first) \<le> key (zs ! i)" using z(4) by simp
  from unguarded_partition_post[OF b l r s]
  obtain cut ys where c: "unguarded_partition ?cmp first (first + 1) lst zs = Some (cut, ys)"
    "first + 1 \<le> cut" "cut < lst" "mset ys = mset zs" "length ys = length zs"
    "\<forall>i. i \<le> first \<or> lst \<le> i \<longrightarrow> ys ! i = zs ! i"
    "\<forall>p. first < p \<and> p < cut \<longrightarrow> key (ys ! p) \<le> key (ys ! first)"
    "\<forall>p. cut \<le> p \<and> p < lst \<longrightarrow> key (ys ! first) \<le> key (ys ! p)"
    by blast
  have eq: "unguarded_partition_pivot ?cmp first lst xs = Some (cut, ys)"
    using c(1) by (simp add: unguarded_partition_pivot_def zs_def mid_def)
  have out: "\<forall>i. i < first \<or> lst \<le> i \<longrightarrow> ys ! i = xs ! i"
    using c(6) z(3) by (metis less_imp_le)
  have split: "key (ys ! p) \<le> key (ys ! q)" if "first \<le> p" "p < cut" "cut \<le> q" "q < lst" for p q
  proof -
    have "key (ys ! p) \<le> key (ys ! first)"
      using that(1,2) c(7) by (cases "p = first") auto
    moreover have "key (ys ! first) \<le> key (ys ! q)" using that(3,4) c(8) by simp
    ultimately show ?thesis by simp
  qed
  show ?thesis
    unfolding eq using c(2-5) z(1,2) out split by auto
qed

lemma introsort_loop_post:
  fixes key :: "'a \<Rightarrow> real"
  assumes "first \<le> lst" "lst \<le> length xs"
  shows "\<exists>ys. introsort_loop (\<lambda>a b. key a < key b) d first lst xs = Some ys \<and>
           mset ys = mset xs \<and> length ys = length xs \<and>
           (\<forall>i. i < first \<or> lst \<le> i \<longrightarrow> ys ! i = xs ! i) \<and>
           (\<forall>p. first + S_threshold \<le> p \<and> p < lst \<longrightarrow>
              (\<exists>q. first \<le> q \<and> q < p \<and> key (ys ! q) \<le> key (ys ! p)))"
  using assms
proof (induction d arbitrary: first lst xs)
  case 0
  let ?cmp = "\<lambda>a b. key a < key b"
  show ?case
  proof (cases "S_threshold < lst - first")
    case False
    then show ?thesis by auto
  next
    case True
    let ?ys = "partial_sort ?cmp first lst lst xs"
    note ps = partial_sort_post[OF 0(1,2), of key]
    have "\<exists>q. first \<le> q \<and> q < p \<and> key (?ys ! q) \<le> key (?ys ! p)"
      if "first + S_threshold \<le> p \<and> p < lst" for p
      using that ps by (intro exI[of _ first]) (auto simp: S_threshold_def)
    then show ?thesis using True ps by simp
  qed
next
  case (Suc d)
  let ?cmp = "\<lambda>a b. key a < key b"
  show ?case
  proof (cases "S_threshold < lst - first")
    case False
    then show ?thesis by auto
  next
    case True
    from unguarded_partition_pivot_post[OF True Suc.prems(2), of key]
    obtain cut ys1 where p: "unguarded_partition_pivot ?cmp first lst xs = Some (cut, ys1)"
      "first < cut" "cut < lst" "mset ys1 = mset xs" "length ys1 = length xs"
      "\<forall>i. i < first \<or> lst \<le> i \<longrightarrow> ys1 ! i = xs ! i"
      "\<forall>p q. first \<le> p \<and> p < cut \<and> cut \<le> q \<and> q < lst \<longrightarrow> key (ys1 ! p) \<le> key (ys1 ! q)"
      by blast
    have b1: "cut \<le> lst" "lst \<le> length ys1" using p(3,5) Suc.prems(2) by auto
    from Suc.IH[OF b1]
    obtain ys2 where r: "introsort_loop ?cmp d cut lst ys1 = Some ys2"
      "mset ys2 = mset ys1" "length ys2 = length ys1"
      "\<forall>i. i < cut \<or> lst \<le> i \<longrightarrow> ys2 ! i = ys1 ! i"
      by blast
    have b2: "first \<le> cut" "cut \<le> length ys2" using p(2,3,5) r(3) Suc.prems(2) by auto
    from Suc.IH[OF b2]
    obtain ys3 where l: "introsort_loop ?cmp d first cut ys2 = Some ys3"
      "mset ys3 = mset ys2" "length ys3 = length ys2"
      "\<forall>i. i < first \<or> cut \<le> i \<longrightarrow> ys3 ! i = ys2 ! i"
      "\<forall>p. first + S_threshold \<le> p \<and> p < cut \<longrightarrow>
              (\<exists>q. first \<le> q \<and> q < p \<and> key (ys3 ! q) \<le> key (ys3 ! p))"
      by blast
    have eq: "introsort_loop ?cmp (Suc d) first lst xs = Some ys3"
      using True p(1) r(1) l(1) by simp
    have out: "\<forall>i. i < first \<or> lst \<le> i \<longrightarrow> ys3 ! i = xs ! i"
    proof (intro allI impI)
      fix i assume i: "i < first \<or> lst \<le> i"
      then have "ys3 ! i = ys2 ! i" using l(4) p(3) by auto
      also have "\<dots> = ys1 ! i" using r(4) i p(2) by auto
      also have "\<dots> = xs ! i" using p(6) i by auto
      finally show "ys3 ! i = xs ! i" .
    qed
    have guard: "\<exists>q. first \<le> q \<and> q < p \<and> key (ys3 ! q) \<le> key (ys3 ! p)"
      if pp: "first + S_threshold \<le> p \<and> p < lst" for p
    proof (cases "p < cut")
      case True
      then show ?thesis using l(5) pp by simp
    next
      case False
      then have pc: "cut \<le> p" "p < lst" using pp by auto
      have "ys3 ! p = ys2 ! p" using l(4) pc by simp
      moreover from range_perm[OF r(3,2,4) pc] b1 p(5)
      obtain p' where p': "cut \<le> p'" "p' < lst" "ys2 ! p = ys1 ! p'" by auto
      moreover from range_perm[OF l(3,2,4), of first] p(2) b2
      obtain q' where q': "first \<le> q'" "q' < cut" "ys3 ! first = ys2 ! q'" by auto
      moreover have "ys2 ! q' = ys1 ! q'" using r(4) q'(2) by simp
      moreover have "key (ys1 ! q') \<le> key (ys1 ! p')" using p(7) q' p' by simp
      ultimately have "key (ys3 ! first) \<le> key (ys3 ! p)" by simp
      then show ?thesis using pc p(2) by (intro exI[of _ first]) auto
    qed
    show ?thesis unfolding eq using l(2,3) r(2,3) p(4,5) out guard by auto
  qed
qed

lemma unguarded_linear_insert_sorted:
  fixes key :: "'a \<Rightarrow> real"
  assumes srt: "sorted_wrt (\<lambda>a b. key a \<le> key b) ps" and ex: "\<exists>e\<in>set ps. key e \<le> key v"
  shows "\<exists>qs. unguarded_linear_insert (\<lambda>a b. key a < key b) v (length ps) (ps @ x # rest) = Some (qs @ rest) \<and>
              mset qs = add_mset v (mset ps) \<and> sorted_wrt (\<lambda>a b. key a \<le> key b) qs"
proof -
  from ex have ex': "\<exists>e\<in>set ps. \<not> (\<lambda>a b. key a < key b) v e" by (auto simp: not_less)
  from unguarded_linear_insert_append[where cmp = "\<lambda>a b. key a < key b" and v = v and ps = ps
      and x = x and rest = rest, OF ex'] obtain ps1 ps2 where
    h: "ps = ps1 @ ps2" "ps1 \<noteq> []" "\<not> key v < key (last ps1)" "\<forall>e\<in>set ps2. key v < key e"
       "unguarded_linear_insert (\<lambda>a b. key a < key b) v (length ps) (ps @ x # rest) = Some (ps1 @ v # ps2 @ rest)"
    by blast
  have s1: "sorted_wrt (\<lambda>a b. key a \<le> key b) ps1" and s2: "sorted_wrt (\<lambda>a b. key a \<le> key b) ps2"
    and s12: "\<forall>a\<in>set ps1. \<forall>b\<in>set ps2. key a \<le> key b"
    using srt by (auto simp: h(1) sorted_wrt_append)
  have a: "key a \<le> key v" if "a \<in> set ps1" for a
  proof -
    have "ps1 = butlast ps1 @ [last ps1]" using h(2) by simp
    then have "sorted_wrt (\<lambda>a b. key a \<le> key b) (butlast ps1 @ [last ps1])"
      and "set ps1 = insert (last ps1) (set (butlast ps1))"
      using s1 by (simp, metis Un_insert_right append_Nil2 list.simps(15) set_append)
    with that have "key a \<le> key (last ps1)" by (auto simp: sorted_wrt_append)
    then show ?thesis using h(3) by simp
  qed
  have "sorted_wrt (\<lambda>a b. key a \<le> key b) (ps1 @ v # ps2)"
    using s1 s2 s12 a h(4) by (auto simp: sorted_wrt_append less_imp_le)
  moreover have "mset (ps1 @ v # ps2) = add_mset v (mset ps)" by (simp add: h(1))
  ultimately show ?thesis using h(5) by (intro exI[of _ "ps1 @ v # ps2"]) simp
qed

lemma insertion_sort_step_sorted_le:
  fixes key :: "'a \<Rightarrow> real"
  assumes srt: "sorted_wrt (\<lambda>a b. key a \<le> key b) ps" and ne: "ps \<noteq> []"
  shows "\<exists>qs. insertion_sort_step (\<lambda>a b. key a < key b) 0 (length ps) (ps @ v # rest) = Some (qs @ rest) \<and>
              mset qs = add_mset v (mset ps) \<and> sorted_wrt (\<lambda>a b. key a \<le> key b) qs"
proof -
  obtain p ps' where ps: "ps = p # ps'" using ne by (cases ps) auto
  have x0: "(ps @ v # rest) ! 0 = p" by (simp add: ps)
  have xi: "(ps @ v # rest) ! length ps = v" by (simp add: nth_append)
  show ?thesis
  proof (cases "key v < key p")
    case True
    have "move_backward 0 (length ps) (ps @ v # rest) = p # ps @ rest"
      by (simp add: move_backward_def ps)
    then have "insertion_sort_step (\<lambda>a b. key a < key b) 0 (length ps) (ps @ v # rest) = Some ((v # ps) @ rest)"
      using True unfolding insertion_sort_step_def x0 xi by (simp add: ps)
    moreover have "sorted_wrt (\<lambda>a b. key a \<le> key b) (v # ps)"
      using True srt by (auto simp: ps)
    ultimately show ?thesis by (intro exI[of _ "v # ps"]) simp
  next
    case False
    then have ex: "\<exists>e\<in>set ps. key e \<le> key v" by (intro bexI[of _ p]) (auto simp: ps)
    from unguarded_linear_insert_sorted[OF srt ex, of v rest] False
    show ?thesis unfolding insertion_sort_step_def x0 xi by simp
  qed
qed

lemma insertion_sort_loop_sorted_le:
  fixes key :: "'a \<Rightarrow> real"
  assumes "sorted_wrt (\<lambda>a b. key a \<le> key b) ps" "ps \<noteq> []"
  shows "\<exists>qs. for_each (insertion_sort_step (\<lambda>a b. key a < key b) 0)
                [length ps..<length ps + length mid] (ps @ mid @ rest) = Some (qs @ rest) \<and>
              mset qs = mset (ps @ mid) \<and> sorted_wrt (\<lambda>a b. key a \<le> key b) qs"
  using assms
proof (induction mid arbitrary: ps)
  case Nil
  then show ?case by simp
next
  case (Cons v mid)
  from insertion_sort_step_sorted_le[OF Cons.prems, of v "mid @ rest"]
  obtain qs where q: "insertion_sort_step (\<lambda>a b. key a < key b) 0 (length ps) (ps @ v # mid @ rest) = Some (qs @ mid @ rest)"
    "mset qs = add_mset v (mset ps)" "sorted_wrt (\<lambda>a b. key a \<le> key b) qs"
    by blast
  have len: "length qs = Suc (length ps)" using q(2) by (metis size_mset size_add_mset)
  have ne: "qs \<noteq> []" using len by auto
  from Cons.IH[OF q(3) ne] obtain rs where
    r: "for_each (insertion_sort_step (\<lambda>a b. key a < key b) 0)
          [length qs..<length qs + length mid] (qs @ mid @ rest) = Some (rs @ rest)"
       "mset rs = mset (qs @ mid)" "sorted_wrt (\<lambda>a b. key a \<le> key b) rs"
    by blast
  have "[length ps..<length ps + length (v # mid)] = length ps # [length qs..<length qs + length mid]"
    using upt_conv_Cons[of "length ps" "length ps + length (v # mid)"] by (simp add: len del: upt_Suc)
  then have "for_each (insertion_sort_step (\<lambda>a b. key a < key b) 0)
          [length ps..<length ps + length (v # mid)] (ps @ (v # mid) @ rest) = Some (rs @ rest)"
    using q(1) r(1) by simp
  moreover have "mset rs = mset (ps @ v # mid)" using r(2) q(2) by simp
  ultimately show ?case using r(3) by blast
qed

lemma unguarded_insertion_loop_sorted:
  fixes key :: "'a \<Rightarrow> real"
  assumes "sorted_wrt (\<lambda>a b. key a \<le> key b) ps"
    "\<forall>j<length mid. \<exists>e\<in>set ps \<union> set (take j mid). key e \<le> key (mid ! j)"
  shows "\<exists>qs. for_each (\<lambda>i ys. unguarded_linear_insert (\<lambda>a b. key a < key b) (ys ! i) i ys)
                [length ps..<length ps + length mid] (ps @ mid) = Some qs \<and>
              mset qs = mset (ps @ mid) \<and> sorted_wrt (\<lambda>a b. key a \<le> key b) qs"
  using assms
proof (induction mid arbitrary: ps)
  case Nil
  then show ?case by simp
next
  case (Cons v mid)
  have ex: "\<exists>e\<in>set ps. key e \<le> key v" using Cons.prems(2) by fastforce
  from unguarded_linear_insert_sorted[OF Cons.prems(1) ex, of v mid]
  obtain qs where q: "unguarded_linear_insert (\<lambda>a b. key a < key b) v (length ps) (ps @ v # mid) = Some (qs @ mid)"
    "mset qs = add_mset v (mset ps)" "sorted_wrt (\<lambda>a b. key a \<le> key b) qs"
    by blast
  have len: "length qs = Suc (length ps)" using q(2) by (metis size_mset size_add_mset)
  have setq: "set qs = insert v (set ps)" using q(2) by (metis set_mset_mset set_mset_add_mset_insert)
  have g: "\<forall>j<length mid. \<exists>e\<in>set qs \<union> set (take j mid). key e \<le> key (mid ! j)"
  proof (intro allI impI)
    fix j assume "j < length mid"
    then have "\<exists>e\<in>set ps \<union> set (take (Suc j) (v # mid)). key e \<le> key ((v # mid) ! Suc j)"
      using Cons.prems(2) by (metis Suc_less_eq length_Cons)
    then show "\<exists>e\<in>set qs \<union> set (take j mid). key e \<le> key (mid ! j)"
      by (auto simp: setq)
  qed
  from Cons.IH[OF q(3) g] obtain rs where
    r: "for_each (\<lambda>i ys. unguarded_linear_insert (\<lambda>a b. key a < key b) (ys ! i) i ys)
          [length qs..<length qs + length mid] (qs @ mid) = Some rs"
       "mset rs = mset (qs @ mid)" "sorted_wrt (\<lambda>a b. key a \<le> key b) rs"
    by blast
  have "[length ps..<length ps + length (v # mid)] = length ps # [length qs..<length qs + length mid]"
    using upt_conv_Cons[of "length ps" "length ps + length (v # mid)"] by (simp add: len del: upt_Suc)
  moreover have "(ps @ v # mid) ! length ps = v" by (simp add: nth_append)
  ultimately have "for_each (\<lambda>i ys. unguarded_linear_insert (\<lambda>a b. key a < key b) (ys ! i) i ys)
          [length ps..<length ps + length (v # mid)] (ps @ v # mid) = Some rs"
    using q(1) r(1) by simp
  moreover have "mset rs = mset (ps @ v # mid)" using r(2) q(2) by simp
  ultimately show ?case using r(3) by blast
qed

lemma gnu_insertion_sort_sorted:
  fixes key :: "'a \<Rightarrow> real"
  assumes "n \<le> length xs"
  shows "\<exists>qs. gnu_insertion_sort (\<lambda>a b. key a < key b) 0 n xs = Some (qs @ drop n xs) \<and>
              mset qs = mset (take n xs) \<and> sorted_wrt (\<lambda>a b. key a \<le> key b) qs"
proof (cases n)
  case 0
  then show ?thesis by (simp add: gnu_insertion_sort_def)
next
  case (Suc m)
  then obtain x xs' where xs: "xs = x # xs'" using assms by (cases xs) auto
  have dec: "xs = [x] @ take m xs' @ drop n xs" by (simp add: xs Suc)
  have idx: "[length [x]..<length [x] + length (take m xs')] = [Suc 0..<n]"
    using assms by (simp add: xs Suc del: upt_Suc)
  have "sorted_wrt (\<lambda>a b. key a \<le> key b) [x]" "[x] \<noteq> []" by simp_all
  from insertion_sort_loop_sorted_le[OF this, of "take m xs'" "drop n xs"]
  obtain qs where q: "for_each (insertion_sort_step (\<lambda>a b. key a < key b) 0) [Suc 0..<n] xs = Some (qs @ drop n xs)"
    "mset qs = mset ([x] @ take m xs')" "sorted_wrt (\<lambda>a b. key a \<le> key b) qs"
    unfolding idx dec[symmetric] by blast
  have "mset qs = mset (take n xs)" using q(2) by (simp add: xs Suc)
  then show ?thesis using q(1,3) by (simp add: gnu_insertion_sort_def Suc)
qed

lemma final_insertion_sort_sorted:
  fixes key :: "'a \<Rightarrow> real"
  assumes g: "\<forall>p. S_threshold \<le> p \<and> p < length xs \<longrightarrow> (\<exists>q. q < p \<and> key (xs ! q) \<le> key (xs ! p))"
  shows "\<exists>ys. final_insertion_sort (\<lambda>a b. key a < key b) 0 (length xs) xs = Some ys \<and>
              mset ys = mset xs \<and> sorted_wrt (\<lambda>a b. key a \<le> key b) ys"
proof (cases "S_threshold < length xs")
  case False
  from gnu_insertion_sort_sorted[of "length xs" xs key]
  show ?thesis using False by (simp add: final_insertion_sort_def)
next
  case True
  let ?cmp = "\<lambda>a b. key a < key b"
  from gnu_insertion_sort_sorted[of S_threshold xs key] True
  obtain ps where p: "gnu_insertion_sort ?cmp 0 S_threshold xs = Some (ps @ drop S_threshold xs)"
    "mset ps = mset (take S_threshold xs)" "sorted_wrt (\<lambda>a b. key a \<le> key b) ps"
    by auto
  have lp: "length ps = S_threshold" using p(2) True by (metis size_mset length_take min.absorb4)
  have sp: "set ps = set (take S_threshold xs)" using p(2) by (metis set_mset_mset)
  let ?mid = "drop S_threshold xs"
  have g': "\<forall>j<length ?mid. \<exists>e\<in>set ps \<union> set (take j ?mid). key e \<le> key (?mid ! j)"
  proof (intro allI impI)
    fix j assume j: "j < length ?mid"
    then have "S_threshold \<le> S_threshold + j \<and> S_threshold + j < length xs" by simp
    with g obtain q where q: "q < S_threshold + j" "key (xs ! q) \<le> key (xs ! (S_threshold + j))" by blast
    have "xs ! q \<in> set (take (S_threshold + j) xs)"
      using q(1) j by (metis in_set_conv_nth length_take less_imp_le_nat min.absorb4 nth_take
          add.commute less_diff_conv length_drop min.absorb2 nat_le_linear)
    moreover have "take (S_threshold + j) xs = take S_threshold xs @ take j ?mid"
      by (simp add: take_add)
    ultimately have "xs ! q \<in> set ps \<union> set (take j ?mid)" using sp by simp
    moreover have "?mid ! j = xs ! (S_threshold + j)" using j by simp
    ultimately show "\<exists>e\<in>set ps \<union> set (take j ?mid). key e \<le> key (?mid ! j)"
      using q(2) by metis
  qed
  from unguarded_insertion_loop_sorted[OF p(3) g']
  obtain qs where q: "for_each (\<lambda>i ys. unguarded_linear_insert ?cmp (ys ! i) i ys)
                [length ps..<length ps + length ?mid] (ps @ ?mid) = Some qs"
     "mset qs = mset (ps @ ?mid)" "sorted_wrt (\<lambda>a b. key a \<le> key b) qs"
    by blast
  have "length ps + length ?mid = length xs" using True lp by simp
  then have "unguarded_insertion_sort ?cmp S_threshold (length xs) (ps @ ?mid) = Some qs"
    using q(1) lp by (simp add: unguarded_insertion_sort_def)
  then have "final_insertion_sort ?cmp 0 (length xs) xs = Some qs"
    using True p(1) by (simp add: final_insertion_sort_def)
  moreover have "mset qs = mset xs"
    using q(2) p(2) by (metis append_take_drop_id mset_append)
  ultimately show ?thesis using q(3) by blast
qed

text \<open>On every list and for every real-valued key the sort of libstdc++ returns, with a
  permutation of the list in ascending key order: it keeps the promise \<open>std_sort_ok\<close> asks
  of \<open>srt\<close>.\<close>

lemma gnu_sort_sorted:
  fixes key :: "'a \<Rightarrow> real"
  shows "\<exists>ys. gnu_sort (\<lambda>a b. key a < key b) xs = Some ys \<and> mset ys = mset xs \<and>
              sorted_wrt (\<lambda>a b. key a \<le> key b) ys"
proof (cases "xs = []")
  case True
  then show ?thesis by (simp add: gnu_sort_def)
next
  case False
  let ?cmp = "\<lambda>a b. key a < key b"
  from introsort_loop_post[of 0 "length xs" xs key "lg (length xs) * 2"]
  obtain zs where z: "introsort_loop ?cmp (lg (length xs) * 2) 0 (length xs) xs = Some zs"
    "mset zs = mset xs" "length zs = length xs"
    "\<forall>p. 0 + S_threshold \<le> p \<and> p < length xs \<longrightarrow> (\<exists>q. 0 \<le> q \<and> q < p \<and> key (zs ! q) \<le> key (zs ! p))"
    by auto
  have g: "\<forall>p. S_threshold \<le> p \<and> p < length zs \<longrightarrow> (\<exists>q. q < p \<and> key (zs ! q) \<le> key (zs ! p))"
    using z(3,4) by simp
  from final_insertion_sort_sorted[OF g]
  obtain ys where y: "final_insertion_sort ?cmp 0 (length zs) zs = Some ys" "mset ys = mset zs"
    "sorted_wrt (\<lambda>a b. key a \<le> key b) ys"
    by blast
  have "gnu_sort ?cmp xs = Some ys" using False z(1,3) y(1) by (simp add: gnu_sort_def)
  then show ?thesis using y(2,3) z(2) by simp
qed

subsection \<open>The sample row\<close>

lemma sqrt_25: "sqrt 25 = 5"
  by (rule real_sqrt_unique) simp_all

lemma ring17_row:
  "dist_matrix exact tracker_missed ring17 1 17 = [[5, 5, 5, 5, 5, 5, 5, 5, 5, 5, 5, 5, 5, 5, 5, 5, 5]]"
  by (simp add: dist_matrix_def tracker_missed_def ring17_def euclidean_distance_def exact_def Obj_def
        map_at_def sqrt_25 upt_conv_Cons Let_def)

lemma ring17_rank:
  "rank_row_libstdcxx [5, 5, 5, 5, 5, 5, 5, 5, 5, 5, 5, 5, 5, 5, 5, 5, 5] 17
     = Some [8, 16, 15, 14, 13, 12, 11, 10, 9, 0, 7, 6, 5, 4, 3, 2, 1]"
  by code_simp

section \<open>The claims\<close>

text \<open>
  C1. In every reachable state \<open>active_objects\<close> is in descending ranking order, also after
  an update that refreshed a matched identity from a detection. The code does not keep
  this: a match overwrites the stored object and leaves \<open>m_id_list\<close> as it was. In the sample
  run the first frame registers objects of size 5 and 3; the second frame matches both and
  brings size 1 for the first, so the list reads sizes 1, 3.
\<close>

theorem refresh_breaks_ranking:
  "run exact by_size insertion_sort
     [Update [Obj 0 0 0 5, Obj 10 0 0 3], Update [Obj 0 0 0 1, Obj 11 0 0 3]] tracker0 = Inr tracker2 \<and>
   reachable exact by_size insertion_sort tracker2 \<and>
   fst (active_objects tracker2) = [Obj 0 0 0 1, Obj 11 0 0 3] \<and>
   \<not> ranked_desc by_size (fst (active_objects tracker2))"
proof -
  have "run exact by_size insertion_sort
     [Update [Obj 0 0 0 5, Obj 10 0 0 3], Update [Obj 0 0 0 1, Obj 11 0 0 3]] tracker0 = Inr tracker2"
    using tracker1_step tracker2_step by simp
  moreover have "fst (active_objects tracker2) = [Obj 0 0 0 1, Obj 11 0 0 3]"
    by (simp add: tracker2_def active_objects_def map_at_def touch_def)
  moreover have "\<not> ranked_desc by_size [Obj 0 0 0 1, Obj 11 0 0 3]"
    by (simp add: ranked_desc_def by_size_def Obj_def)
  ultimately show ?thesis using reachable_tracker2 by simp
qed




text \<open>
  C3. With tracked objects and detections both present, \<open>update\<close> goes through the
  identities in the order of \<open>active_obj_ids\<close>, each once. The identity at place \<open>p\<close>
  takes a detection \<open>c\<close> only when no identity before it took \<open>c\<close> and the distance is
  strictly below \<open>m_dist_tol\<close>; then it holds that detection and its frame count is
  raised. It takes none exactly when every detection no earlier identity took is at
  distance at least the tolerance; then it is marked missing.
\<close>

theorem match_only_below_tolerance:
  assumes "std_sort_ok srt" "reachable ar gt srt s" "new_objs \<noteq> []" "fst (object_count s) \<noteq> 0"
  shows "update ar gt srt s new_objs = cleanup_dissapeared (update_match ar gt srt s new_objs) \<and>
    mset (resolution_order ar srt s new_objs) = mset [0..<length (m_id_list s)] \<and>
    (\<exists>cs. length cs = length (m_id_list s) \<and>
       (\<forall>p < length (m_id_list s).
          (let k = m_id_list s ! (resolution_order ar srt s new_objs ! p);
               b = update_match ar gt srt s new_objs
           in case cs ! p of
                None \<Rightarrow>
                  (\<forall>c < length new_objs. Some c \<notin> set (take p cs) \<longrightarrow>
                     m_dist_tol s \<le> euclidean_distance ar (the (m_active_objects s k)) (new_objs ! c)) \<and>
                  m_active_objects b k = m_active_objects s k \<and>
                  m_framecount b k = Some 0 \<and>
                  m_disappeared b k = Some (the (m_disappeared s k) + 1)
              | Some c \<Rightarrow>
                  c < length new_objs \<and> Some c \<notin> set (take p cs) \<and>
                  euclidean_distance ar (the (m_active_objects s k)) (new_objs ! c) < m_dist_tol s \<and>
                  m_active_objects b k = Some (new_objs ! c) \<and>
                  m_framecount b k = Some (the (m_framecount s k) + 1) \<and>
                  m_disappeared b k = m_disappeared s k)))"
proof -
  have inv: "tracker_inv s" by (rule reachable_inv[OF assms(2,1)])
  have c: "card (dom (m_active_objects s)) \<noteq> 0"
    using assms(4) by (simp add: object_count_def)
  have ne: "m_id_list s \<noteq> []" by (rule inv_nonempty[OF inv c])
  have 1: "update ar gt srt s new_objs = cleanup_dissapeared (update_match ar gt srt s new_objs)"
    using assms(3) c by (simp add: update_def update_body_def)
  have 2: "mset (resolution_order ar srt s new_objs) = mset [0..<length (m_id_list s)]"
    by (rule resolution_order_mset[OF assms(1)])
  define rows where "rows = resolution_order ar srt s new_objs"
  define b where "b = update_match ar gt srt s new_objs"
  define mp where "mp = fst (match_phase ar srt s new_objs)"
  have invmp: "tracker_inv mp" unfolding mp_def by (rule inv_match_phase[OF assms(1) inv])
  have rset: "set rows = {0..<length (m_id_list s)}"
    using 2 unfolding rows_def by (metis set_mset_mset set_upt)
  have rlen: "length rows = length (m_id_list s)"
    using 2 unfolding rows_def by (metis length_upt mset_eq_length minus_nat.diff_0)
  from match_phase_claims[OF assms(1) inv, of ar new_objs]
  obtain cs where cs: "length cs = length (m_id_list s)"
    "\<And>p. p < length (m_id_list s) \<Longrightarrow>
              row_result (m_dist_tol s)
                (dist_matrix ar s new_objs (length (m_id_list s)) (length new_objs) ! (rows ! p))
                (rank_row srt (dist_matrix ar s new_objs (length (m_id_list s)) (length new_objs) ! (rows ! p)) (length new_objs))
                new_objs {c. Some c \<in> set (take p cs)}
                (entry s (m_id_list s ! (rows ! p)))
                (entry mp (m_id_list s ! (rows ! p)))
                (cs ! p)"
    unfolding rows_def mp_def by blast
  have 3: "case cs ! p of
                None \<Rightarrow>
                  (\<forall>c < length new_objs. Some c \<notin> set (take p cs) \<longrightarrow>
                     m_dist_tol s \<le> euclidean_distance ar (the (m_active_objects s (m_id_list s ! (rows ! p)))) (new_objs ! c)) \<and>
                  m_active_objects b (m_id_list s ! (rows ! p)) = m_active_objects s (m_id_list s ! (rows ! p)) \<and>
                  m_framecount b (m_id_list s ! (rows ! p)) = Some 0 \<and>
                  m_disappeared b (m_id_list s ! (rows ! p)) = Some (the (m_disappeared s (m_id_list s ! (rows ! p))) + 1)
              | Some c \<Rightarrow>
                  c < length new_objs \<and> Some c \<notin> set (take p cs) \<and>
                  euclidean_distance ar (the (m_active_objects s (m_id_list s ! (rows ! p)))) (new_objs ! c) < m_dist_tol s \<and>
                  m_active_objects b (m_id_list s ! (rows ! p)) = Some (new_objs ! c) \<and>
                  m_framecount b (m_id_list s ! (rows ! p)) = Some (the (m_framecount s (m_id_list s ! (rows ! p))) + 1) \<and>
                  m_disappeared b (m_id_list s ! (rows ! p)) = m_disappeared s (m_id_list s ! (rows ! p))"
    if p: "p < length (m_id_list s)" for p
  proof -
    define r where "r = rows ! p"
    define k where "k = m_id_list s ! r"
    have rr: "r < length (m_id_list s)" using p rset rlen unfolding r_def by (metis atLeastLessThan_iff nth_mem)
    have kd: "k \<in> dom (m_active_objects s)" using rr inv unfolding k_def by (auto simp: tracker_inv_def)
    have doms: "k \<in> dom (m_framecount s)" "k \<in> dom (m_disappeared s)"
      using kd inv by (simp_all add: tracker_inv_def)
    have "k < m_next_id mp" using kd inv by (simp add: tracker_inv_def mp_def match_phase_frame)
    then have e: "entry b k = entry mp k"
      using reg_all_old[OF invmp]
      by (simp add: b_def update_match_inv_eq[OF inv ne] register_unused_reg_all mp_def)
    have dn: "dist_matrix ar s new_objs (length (m_id_list s)) (length new_objs) ! r ! c
          = euclidean_distance ar (the (m_active_objects s k)) (new_objs ! c)" if "c < length new_objs" for c
      using kd by (auto simp: dist_matrix_nth[OF rr that] k_def map_at_def)
    note rs = rank_row_set[OF assms(1)]
    from cs(2)[OF p] show ?thesis
      unfolding r_def[symmetric] k_def[symmetric]
    proof (cases "cs ! p")
      case None
      assume rres: "row_result (m_dist_tol s)
         (dist_matrix ar s new_objs (length (m_id_list s)) (length new_objs) ! r)
         (rank_row srt (dist_matrix ar s new_objs (length (m_id_list s)) (length new_objs) ! r) (length new_objs))
         new_objs {c. Some c \<in> set (take p cs)} (entry s k) (entry mp k) (cs ! p)"
      then have far: "\<forall>c < length new_objs. Some c \<notin> set (take p cs) \<longrightarrow>
          \<not> dist_matrix ar s new_objs (length (m_id_list s)) (length new_objs) ! r ! c < m_dist_tol s"
        and miss: "missed_entry (entry s k) (entry mp k)"
        by (auto simp: row_result_def None rs)
      have "\<forall>c < length new_objs. Some c \<notin> set (take p cs) \<longrightarrow>
                     m_dist_tol s \<le> euclidean_distance ar (the (m_active_objects s k)) (new_objs ! c)"
        using far dn by (auto simp: not_less)
      moreover have "entry b k = (m_active_objects s k, Some 0, Some (the (m_disappeared s k) + 1))"
        using miss doms e by (auto simp: missed_entry_def entry_def[of s])
      ultimately show "case cs ! p of
                None \<Rightarrow>
                  (\<forall>c < length new_objs. Some c \<notin> set (take p cs) \<longrightarrow>
                     m_dist_tol s \<le> euclidean_distance ar (the (m_active_objects s k)) (new_objs ! c)) \<and>
                  m_active_objects b k = m_active_objects s k \<and>
                  m_framecount b k = Some 0 \<and>
                  m_disappeared b k = Some (the (m_disappeared s k) + 1)
              | Some c \<Rightarrow>
                  c < length new_objs \<and> Some c \<notin> set (take p cs) \<and>
                  euclidean_distance ar (the (m_active_objects s k)) (new_objs ! c) < m_dist_tol s \<and>
                  m_active_objects b k = Some (new_objs ! c) \<and>
                  m_framecount b k = Some (the (m_framecount s k) + 1) \<and>
                  m_disappeared b k = m_disappeared s k"
        by (simp add: None entry_def)
    next
      case (Some c)
      assume rres: "row_result (m_dist_tol s)
         (dist_matrix ar s new_objs (length (m_id_list s)) (length new_objs) ! r)
         (rank_row srt (dist_matrix ar s new_objs (length (m_id_list s)) (length new_objs) ! r) (length new_objs))
         new_objs {c. Some c \<in> set (take p cs)} (entry s k) (entry mp k) (cs ! p)"
      then have cl: "c < length new_objs" and cu: "Some c \<notin> set (take p cs)"
        and cd: "dist_matrix ar s new_objs (length (m_id_list s)) (length new_objs) ! r ! c < m_dist_tol s"
        and ent: "entry mp k = (Some (new_objs ! c), Some ((case m_framecount s k of None \<Rightarrow> 0 | Some v \<Rightarrow> v) + 1), m_disappeared s k)"
        by (auto simp: row_result_def Some rs entry_def[of s])
      have "euclidean_distance ar (the (m_active_objects s k)) (new_objs ! c) < m_dist_tol s"
        using cd dn[OF cl] by simp
      moreover have "entry b k = (Some (new_objs ! c), Some (the (m_framecount s k) + 1), m_disappeared s k)"
        using ent doms e by auto
      ultimately show "case cs ! p of
                None \<Rightarrow>
                  (\<forall>c < length new_objs. Some c \<notin> set (take p cs) \<longrightarrow>
                     m_dist_tol s \<le> euclidean_distance ar (the (m_active_objects s k)) (new_objs ! c)) \<and>
                  m_active_objects b k = m_active_objects s k \<and>
                  m_framecount b k = Some 0 \<and>
                  m_disappeared b k = Some (the (m_disappeared s k) + 1)
              | Some c \<Rightarrow>
                  c < length new_objs \<and> Some c \<notin> set (take p cs) \<and>
                  euclidean_distance ar (the (m_active_objects s k)) (new_objs ! c) < m_dist_tol s \<and>
                  m_active_objects b k = Some (new_objs ! c) \<and>
                  m_framecount b k = Some (the (m_framecount s k) + 1) \<and>
                  m_disappeared b k = m_disappeared s k"
        using cl cu by (simp add: Some entry_def)
    qed
  qed
  have "\<exists>cs. length cs = length (m_id_list s) \<and>
       (\<forall>p < length (m_id_list s).
          (let k = m_id_list s ! (resolution_order ar srt s new_objs ! p);
               b = update_match ar gt srt s new_objs
           in case cs ! p of
                None \<Rightarrow>
                  (\<forall>c < length new_objs. Some c \<notin> set (take p cs) \<longrightarrow>
                     m_dist_tol s \<le> euclidean_distance ar (the (m_active_objects s k)) (new_objs ! c)) \<and>
                  m_active_objects b k = m_active_objects s k \<and>
                  m_framecount b k = Some 0 \<and>
                  m_disappeared b k = Some (the (m_disappeared s k) + 1)
              | Some c \<Rightarrow>
                  c < length new_objs \<and> Some c \<notin> set (take p cs) \<and>
                  euclidean_distance ar (the (m_active_objects s k)) (new_objs ! c) < m_dist_tol s \<and>
                  m_active_objects b k = Some (new_objs ! c) \<and>
                  m_framecount b k = Some (the (m_framecount s k) + 1) \<and>
                  m_disappeared b k = m_disappeared s k))"
    unfolding Let_def rows_def[symmetric] b_def[symmetric]
    using cs(1) 3 by (intro exI[of _ cs]) blast
  with 1 2 show ?thesis by blast
qed

theorem match_only_below_tolerance_witness:
  "std_sort_ok insertion_sort \<and> reachable exact by_size insertion_sort tracker_near \<and>
   [Obj 0 0 0 4] \<noteq> [] \<and> fst (object_count tracker_near) \<noteq> 0 \<and>
   resolution_order exact insertion_sort tracker_near [Obj 0 0 0 4] = [0, 1] \<and>
   euclidean_distance exact (the (m_active_objects tracker_near 1)) (Obj 0 0 0 4) < m_dist_tol tracker_near \<and>
   m_active_objects (update_match exact by_size insertion_sort tracker_near [Obj 0 0 0 4]) 0 = Some (Obj 0 0 0 4) \<and>
   m_framecount (update_match exact by_size insertion_sort tracker_near [Obj 0 0 0 4]) 0 = Some 2 \<and>
   m_active_objects (update_match exact by_size insertion_sort tracker_near [Obj 0 0 0 4]) 1 = Some (Obj 1 0 0 3) \<and>
   m_framecount (update_match exact by_size insertion_sort tracker_near [Obj 0 0 0 4]) 1 = Some 0 \<and>
   m_disappeared (update_match exact by_size insertion_sort tracker_near [Obj 0 0 0 4]) 1 = Some 1"
proof -
  define b where "b = update_match exact by_size insertion_sort tracker_near [Obj 0 0 0 4]"
  have h1: "[Obj 0 0 0 4] \<noteq> []" by simp
  have h2: "fst (object_count tracker_near) \<noteq> 0" by (simp add: tracker_near_def object_count_def)
  have il: "m_id_list tracker_near = [0, 1]" by (simp add: tracker_near_def)
  have ro: "resolution_order exact insertion_sort tracker_near [Obj 0 0 0 4] = [0, 1]"
    by (simp add: resolution_order_def tracker_near_def sample_defs)
  have d0: "euclidean_distance exact (the (m_active_objects tracker_near 0)) (Obj 0 0 0 4) = 0"
    and d1: "euclidean_distance exact (the (m_active_objects tracker_near 1)) (Obj 0 0 0 4) = 1"
    by (simp_all add: tracker_near_def euclidean_distance_def exact_def Obj_def)
  have v: "m_dist_tol tracker_near = 2" "m_framecount tracker_near 0 = Some 1"
    "m_active_objects tracker_near 1 = Some (Obj 1 0 0 3)" "m_disappeared tracker_near 1 = Some 0"
    by (simp_all add: tracker_near_def)
  from match_only_below_tolerance[OF insertion_sort_ok reachable_tracker_near h1 h2]
  obtain cs where l0: "length cs = length (m_id_list tracker_near)"
    and P0: "\<forall>p < length (m_id_list tracker_near).
          (let k = m_id_list tracker_near ! (resolution_order exact insertion_sort tracker_near [Obj 0 0 0 4] ! p);
               b = update_match exact by_size insertion_sort tracker_near [Obj 0 0 0 4]
           in case cs ! p of
                None \<Rightarrow>
                  (\<forall>c < length [Obj 0 0 0 4]. Some c \<notin> set (take p cs) \<longrightarrow>
                     m_dist_tol tracker_near \<le> euclidean_distance exact (the (m_active_objects tracker_near k)) ([Obj 0 0 0 4] ! c)) \<and>
                  m_active_objects b k = m_active_objects tracker_near k \<and>
                  m_framecount b k = Some 0 \<and>
                  m_disappeared b k = Some (the (m_disappeared tracker_near k) + 1)
              | Some c \<Rightarrow>
                  c < length [Obj 0 0 0 4] \<and> Some c \<notin> set (take p cs) \<and>
                  euclidean_distance exact (the (m_active_objects tracker_near k)) ([Obj 0 0 0 4] ! c) < m_dist_tol tracker_near \<and>
                  m_active_objects b k = Some ([Obj 0 0 0 4] ! c) \<and>
                  m_framecount b k = Some (the (m_framecount tracker_near k) + 1) \<and>
                  m_disappeared b k = m_disappeared tracker_near k)"
    by blast
  have l: "length cs = 2" using l0 il by simp
  have Pa: "case cs ! 0 of
                None \<Rightarrow>
                  (Some 0 \<notin> set (take 0 cs) \<longrightarrow>
                     2 \<le> euclidean_distance exact (the (m_active_objects tracker_near 0)) (Obj 0 0 0 4)) \<and>
                  m_framecount b 0 = Some 0
              | Some c \<Rightarrow>
                  c < 1 \<and>
                  m_active_objects b 0 = Some ([Obj 0 0 0 4] ! c) \<and>
                  m_framecount b 0 = Some (the (m_framecount tracker_near 0) + 1)"
    using P0[rule_format, of 0] unfolding ro il v(1) b_def[symmetric] Let_def
    by (auto split: option.splits)
  have Pb: "case cs ! 1 of
                None \<Rightarrow>
                  m_active_objects b 1 = m_active_objects tracker_near 1 \<and>
                  m_framecount b 1 = Some 0 \<and>
                  m_disappeared b 1 = Some (the (m_disappeared tracker_near 1) + 1)
              | Some c \<Rightarrow> c < 1 \<and> Some c \<notin> set (take 1 cs)"
    using P0[rule_format, of 1] unfolding ro il v(1) b_def[symmetric] Let_def
    by (auto split: option.splits)
  have t1: "take 1 cs = [cs ! 0]" using l by (cases cs) auto
  have c0: "cs ! 0 = Some 0"
  proof (cases "cs ! 0")
    case None
    with Pa d0 show ?thesis by simp
  next
    case (Some c)
    with Pa show ?thesis by simp
  qed
  have c1: "cs ! 1 = None"
  proof (cases "cs ! 1")
    case None
    then show ?thesis .
  next
    case (Some c)
    with Pb have "c < 1 \<and> Some c \<notin> set (take 1 cs)" by auto
    then have "Some (0::nat) \<notin> set (take 1 cs)" by auto
    then show ?thesis using c0 t1 by simp
  qed
  from Pa c0 v have r0: "m_active_objects b 0 = Some (Obj 0 0 0 4) \<and> m_framecount b 0 = Some 2"
    by simp
  from Pb c1 v have r1: "m_active_objects b 1 = Some (Obj 1 0 0 3) \<and> m_framecount b 1 = Some 0 \<and>
      m_disappeared b 1 = Some 1"
    by simp
  have "euclidean_distance exact (the (m_active_objects tracker_near 1)) (Obj 0 0 0 4) < m_dist_tol tracker_near"
    using d1 v(1) by simp
  with r0 r1 h1 h2 ro show ?thesis
    unfolding b_def using insertion_sort_ok reachable_tracker_near by blast
qed

text \<open>
  C4. On a reachable tracker with no objects, an update with \<open>n\<close> detections returns and
  leaves \<open>n\<close> objects, and \<open>active_objects\<close> then returns the detections, each once, in
  some order.
\<close>

theorem update_on_empty_registers_all:
  assumes "std_sort_ok srt" "reachable ar gt srt s" "fst (object_count s) = 0"
  shows "\<exists>u. update ar gt srt s new_objs = Inr u \<and>
             fst (object_count u) = length new_objs \<and>
             mset (fst (active_objects u)) = mset new_objs"
proof -
  have inv: "tracker_inv s" by (rule reachable_inv[OF assms(2,1)])
  note em = inv_empty[OF inv assms(3)]
  define b where "b = reg_all gt new_objs s"
  have body: "update_body ar gt srt s new_objs = b"
  proof (cases "new_objs = []")
    case True
    then show ?thesis
      by (simp add: update_body_def update_none_def em keys_def b_def reg_all_simps)
  next
    case False
    then show ?thesis
      using assms(3) by (simp add: update_body_def update_all_new_reg_all b_def object_count_def)
  qed
  have invb: "tracker_inv b" unfolding b_def by (rule inv_reg_all[OF inv])
  have domb: "dom (m_active_objects b) = {m_next_id s ..< m_next_id s + length new_objs}"
    unfolding b_def by (simp add: reg_all_dom[OF inv] em)
  have newb: "entry b (m_next_id s + j) = (Some (new_objs ! j), Some 1, Some 0)" if "j < length new_objs" for j
    unfolding b_def using reg_all_new[OF inv that, of gt] by simp
  have nostale: "\<forall>k. \<not> stale b k"
  proof (intro allI notI)
    fix k assume st: "stale b k"
    then have "k \<in> dom (m_active_objects b)" using invb by (simp add: stale_def tracker_inv_def)
    then obtain j where j: "k = m_next_id s + j" "j < length new_objs"
      unfolding domb by (metis atLeastLessThan_iff le_iff_add nat_add_left_cancel_less)
    from newb[OF j(2)] j(1) have "m_disappeared b k = Some 0" by (simp add: entry_def)
    with st show False by (simp add: stale_def)
  qed
  have u: "update ar gt srt s new_objs = Inr b"
    unfolding update_def body by (rule cleanup_clean[OF inv_fin_dis[OF invb] nostale])
  have cnt: "fst (object_count b) = length new_objs"
    by (simp add: object_count_def domb)
  have "distinct (m_id_list b)" "set (m_id_list b) = {m_next_id s ..< m_next_id s + length new_objs}"
    using invb domb by (simp_all add: tracker_inv_def)
  then have ms: "mset (m_id_list b) = mset [m_next_id s ..< m_next_id s + length new_objs]"
    by (rule mset_distinct_upt)
  have "map (\<lambda>k. the (m_active_objects b k)) [m_next_id s ..< m_next_id s + length new_objs] = new_objs"
  proof (rule nth_equalityI)
    show "length (map (\<lambda>k. the (m_active_objects b k)) [m_next_id s ..< m_next_id s + length new_objs]) = length new_objs"
      by simp
  next
    fix j assume "j < length (map (\<lambda>k. the (m_active_objects b k)) [m_next_id s ..< m_next_id s + length new_objs])"
    then have j: "j < length new_objs" by simp
    from newb[OF j] have "m_active_objects b (m_next_id s + j) = Some (new_objs ! j)"
      by (simp add: entry_def)
    with j show "map (\<lambda>k. the (m_active_objects b k)) [m_next_id s ..< m_next_id s + length new_objs] ! j = new_objs ! j"
      by simp
  qed
  then have "mset new_objs = image_mset (\<lambda>k. the (m_active_objects b k)) (mset [m_next_id s ..< m_next_id s + length new_objs])"
    by (metis mset_map)
  also have "\<dots> = mset (map (\<lambda>k. the (m_active_objects b k)) (m_id_list b))"
    by (simp add: ms)
  also have "\<dots> = mset (fst (active_objects b))"
    by (simp add: active_objects_inv[OF invb])
  finally show ?thesis using cnt u by simp
qed

theorem update_on_empty_registers_all_witness:
  "std_sort_ok insertion_sort \<and> reachable exact by_size insertion_sort tracker0 \<and>
   fst (object_count tracker0) = 0 \<and>
   update exact by_size insertion_sort tracker0 [Obj 0 0 0 3, Obj 10 0 0 5] = Inr tracker3 \<and>
   fst (object_count tracker3) = 2 \<and>
   fst (active_objects tracker3) = [Obj 10 0 0 5, Obj 0 0 0 3] \<and>
   mset (fst (active_objects tracker3)) = mset [Obj 0 0 0 3, Obj 10 0 0 5]"
proof -
  have c: "fst (object_count tracker0) = 0"
    by (simp add: tracker0_def ObjectTracker_new_def object_count_def)
  have a: "fst (active_objects tracker3) = [Obj 10 0 0 5, Obj 0 0 0 3]"
    by (simp add: tracker3_def active_objects_def map_at_def touch_def)
  have u: "update exact by_size insertion_sort tracker0 [Obj 0 0 0 3, Obj 10 0 0 5] = Inr tracker3"
    using tracker3_step by simp
  from update_on_empty_registers_all[OF insertion_sort_ok reachable_tracker0 c, of "[Obj 0 0 0 3, Obj 10 0 0 5]"] u
  have "fst (object_count tracker3) = 2 \<and> mset (fst (active_objects tracker3)) = mset [Obj 0 0 0 3, Obj 10 0 0 5]"
    by simp
  then show ?thesis using reachable_tracker0 c a u insertion_sort_ok by blast
qed

text \<open>
  C5. An identity unmatched for more than \<open>m_max_dissapeared_frms\<close> updates is removed by the
  update in which its count exceeds the maximum, and is in no later state. The code
  does not get there: \<open>cleanup_dissapeared\<close> erases the entry of \<open>m_disappeared\<close> its iterator
  stands on and then increments that iterator. In the sample run one object is
  registered and three frames without detections follow; in the third the count is 3,
  above the maximum 2, the entry is erased, and the behaviour of the call is undefined.
\<close>

theorem cleanup_invalidates_iterator:
  "run exact by_size insertion_sort [Update [Obj 0 0 0 5], Update [], Update []] tracker0
     = Inr tracker_missed2 \<and>
   m_disappeared tracker_missed2 0 = Some 2 \<and>
   m_disappeared (update_body exact by_size insertion_sort tracker_missed2 []) 0 = Some 3 \<and>
   update exact by_size insertion_sort tracker_missed2 [] = Inl (InvalidatedIterator tracker_erased) \<and>
   run exact by_size insertion_sort [Update [Obj 0 0 0 5], Update [], Update [], Update []] tracker0
     = Inl (InvalidatedIterator tracker_erased)"
proof -
  have r: "run exact by_size insertion_sort [Update [Obj 0 0 0 5], Update [], Update []] tracker0
     = Inr tracker_missed2"
    using tracker_missed_run tracker_missed2_step by (auto split: sum.splits)
  moreover have "m_disappeared tracker_missed2 0 = Some 2"
    by (simp add: tracker_missed2_def)
  moreover have "m_disappeared (update_body exact by_size insertion_sort tracker_missed2 []) 0 = Some 3"
    by (simp add: tracker_missed2_def update_body_def update_none_def mark_missing_def keys_def map_at_def)
  moreover have "run exact by_size insertion_sort [Update [Obj 0 0 0 5], Update [], Update [], Update []] tracker0
     = Inl (InvalidatedIterator tracker_erased)"
    using r tracker_erased_update by (auto split: sum.splits)
  ultimately show ?thesis using tracker_erased_update by blast
qed


text \<open>
  C6. \<open>topValid\<close> returns the first eligible identity in key order and sets its flag. The
  identity it returned is not eligible in any later state, whatever calls follow, so it
  is not returned again. Called repeatedly with nothing else in between, it returns the
  identities eligible at the start one after the other, each once, and nothing from
  then on.
\<close>

theorem topValid_at_most_once:
  assumes "std_sort_ok srt" "reachable ar gt srt s"
  shows "topValid s =
           (case eligible_ids s of
              [] \<Rightarrow> (None, s)
            | k # _ \<Rightarrow> (m_active_objects s k, s\<lparr>m_uprooted := (m_uprooted s)(k \<mapsto> True)\<rparr>)) \<and>
         distinct (eligible_ids s) \<and>
         (eligible_ids s = k # rest \<longrightarrow>
            m_uprooted (snd (topValid s)) k = Some True \<and>
            (\<forall>t. run ar gt srt calls (snd (topValid s)) = Inr t \<longrightarrow> k \<notin> set (eligible_ids t))) \<and>
         (\<exists>t. run ar gt srt (replicate j TopValid) s = Inr t \<and>
              eligible_ids t = drop j (eligible_ids s) \<and>
              fst (topValid t)
                = (if j < length (eligible_ids s) then m_active_objects s (eligible_ids s ! j) else None) \<and>
              (length (eligible_ids s) \<le> j \<longrightarrow> topValid t = (None, t)))"
proof -
  have inv: "tracker_inv s" by (rule reachable_inv[OF assms(2,1)])
  have hd_dom: "k' \<in> dom (m_active_objects t)" if "tracker_inv t" "eligible_ids t = k' # r'" for t k' r'
    using eligible_ids_set[OF that(1)] that(2) by auto
  have tv: "topValid t =
           (case eligible_ids t of
              [] \<Rightarrow> (None, t)
            | k # _ \<Rightarrow> (m_active_objects t k, t\<lparr>m_uprooted := (m_uprooted t)(k \<mapsto> True)\<rparr>))"
    if "tracker_inv t" for t
  proof (cases "eligible_ids t")
    case Nil
    then show ?thesis by (simp add: topValid_inv[OF that])
  next
    case (Cons k' r')
    from hd_dom[OF that Cons] show ?thesis
      by (auto simp: topValid_inv[OF that] Cons claim_def)
  qed
  have 1: "topValid s =
           (case eligible_ids s of
              [] \<Rightarrow> (None, s)
            | k # _ \<Rightarrow> (m_active_objects s k, s\<lparr>m_uprooted := (m_uprooted s)(k \<mapsto> True)\<rparr>))"
    by (rule tv[OF inv])
  have 2: "distinct (eligible_ids s)"
    by (simp add: eligible_ids_def distinct_keys)
  have 3: "m_uprooted (snd (topValid s)) k = Some True \<and>
            (\<forall>t. run ar gt srt calls (snd (topValid s)) = Inr t \<longrightarrow> k \<notin> set (eligible_ids t))"
    if e: "eligible_ids s = k # rest"
  proof -
    have kd: "k \<in> dom (m_active_objects s)" by (rule hd_dom[OF inv e])
    have s': "snd (topValid s) = claim s k" by (simp add: topValid_inv[OF inv] e)
    have i': "tracker_inv (snd (topValid s))" by (rule inv_topValid[OF inv])
    have "k < m_next_id s" using inv kd by (simp add: tracker_inv_def)
    then have ret: "retired k (snd (topValid s))" by (simp add: s' retired_def claim_def)
    have "k \<notin> set (eligible_ids t)" if r: "run ar gt srt calls (snd (topValid s)) = Inr t" for t
    proof -
      have "retired k t" by (rule retired_run[OF assms(1) i' ret r])
      moreover have "tracker_inv t" by (rule inv_run[OF assms(1) i' r])
      ultimately show ?thesis by (rule retired_not_eligible[rotated])
    qed
    then show ?thesis by (simp add: s' claim_def)
  qed
  from repeated_topValid[OF inv, of ar gt srt j]
  obtain t where t: "run ar gt srt (replicate j TopValid) s = Inr t" and it: "tracker_inv t"
    and et: "eligible_ids t = drop j (eligible_ids s)" and mt: "m_active_objects t = m_active_objects s"
    by blast
  have 5: "fst (topValid t) = (if j < length (eligible_ids s) then m_active_objects s (eligible_ids s ! j) else None)"
  proof (cases "j < length (eligible_ids s)")
    case True
    then have "eligible_ids t = eligible_ids s ! j # drop (Suc j) (eligible_ids s)"
      by (simp add: et Cons_nth_drop_Suc)
    then show ?thesis using True by (simp add: tv[OF it] mt)
  next
    case False
    then show ?thesis by (simp add: tv[OF it] et)
  qed
  have 6: "length (eligible_ids s) \<le> j \<longrightarrow> topValid t = (None, t)"
    by (simp add: tv[OF it] et)
  from 1 2 3 t et 5 6 show ?thesis by blast
qed

theorem topValid_at_most_once_witness:
  "std_sort_ok insertion_sort \<and> reachable exact by_size insertion_sort tracker4 \<and>
   eligible_ids tracker4 = [0, 1] \<and>
   fst (topValid tracker4) = Some (Obj 0 0 0 3) \<and>
   m_uprooted (snd (topValid tracker4)) 0 = Some True \<and>
   run exact by_size insertion_sort [Update [Obj 0 0 0 3, Obj 12 0 0 5], TopValid]
     (snd (topValid tracker4)) = Inr tracker5 \<and>
   0 \<notin> set (eligible_ids tracker5) \<and>
   (\<exists>t. run exact by_size insertion_sort (replicate 1 TopValid) tracker4 = Inr t \<and>
        fst (topValid t) = Some (Obj 11 0 0 5)) \<and>
   length (eligible_ids tracker4) \<le> 2 \<and>
   (\<exists>t. run exact by_size insertion_sort (replicate 2 TopValid) tracker4 = Inr t \<and>
        topValid t = (None, t))"
proof -
  have k: "keys (m_active_objects tracker4) = [0, 1]"
    by (simp add: tracker4_def keys_def)
  have e: "eligible_ids tracker4 = [0, 1]"
    unfolding eligible_ids_def k by (simp add: tracker4_def eligible_def map_at_def)
  note t0 = topValid_at_most_once[OF insertion_sort_ok reachable_tracker4,
      where k = 0 and rest = "[1]" and j = 0
        and calls = "[Update [Obj 0 0 0 3, Obj 12 0 0 5], TopValid]"]
  note t1 = topValid_at_most_once[OF insertion_sort_ok reachable_tracker4,
      where k = 0 and rest = "[1]" and j = 1 and calls = "[]"]
  note t2 = topValid_at_most_once[OF insertion_sort_ok reachable_tracker4,
      where k = 0 and rest = "[1]" and j = 2 and calls = "[]"]
  have a: "fst (topValid tracker4) = Some (Obj 0 0 0 3)"
    using t0 by (simp add: e) (simp add: tracker4_def)
  have b: "m_uprooted (snd (topValid tracker4)) 0 = Some True \<and> 0 \<notin> set (eligible_ids tracker5)"
    using t0 e tracker5_run by blast
  from t1 obtain t where c1: "run exact by_size insertion_sort (replicate 1 TopValid) tracker4 = Inr t"
    and c2: "fst (topValid t) = (if 1 < length (eligible_ids tracker4)
          then m_active_objects tracker4 (eligible_ids tracker4 ! 1) else None)"
    by blast
  have "fst (topValid t) = Some (Obj 11 0 0 5)"
    using c2 by (simp add: e) (simp add: tracker4_def)
  with c1 have c: "\<exists>t. run exact by_size insertion_sort (replicate 1 TopValid) tracker4 = Inr t \<and>
        fst (topValid t) = Some (Obj 11 0 0 5)" by blast
  have l: "length (eligible_ids tracker4) \<le> 2" by (simp add: e)
  have d: "\<exists>t. run exact by_size insertion_sort (replicate 2 TopValid) tracker4 = Inr t \<and>
        topValid t = (None, t)"
    using t2 l by blast
  from a b c d l e tracker5_run show ?thesis using insertion_sort_ok reachable_tracker4 by blast
qed

text \<open>
  C7. \<open>active_objects\<close>, \<open>object_count\<close> and \<open>top\<close> leave every reachable tracker state
  as it is: on such a state no \<open>m_active_objects[id]\<close> read inserts an entry.
\<close>

theorem reads_are_pure:
  assumes "std_sort_ok srt" "reachable ar gt srt s"
  shows "snd (active_objects s) = s \<and> snd (object_count s) = s \<and> snd (top_obj s) = s"
  using reachable_inv[OF assms(2,1)]
  by (simp add: active_objects_inv top_obj_inv object_count_def)

theorem reads_are_pure_witness:
  "std_sort_ok insertion_sort \<and> reachable exact by_size insertion_sort tracker2 \<and>
   snd (active_objects tracker2) = tracker2 \<and> snd (object_count tracker2) = tracker2 \<and>
   snd (top_obj tracker2) = tracker2"
  using reads_are_pure[OF insertion_sort_ok reachable_tracker2] insertion_sort_ok reachable_tracker2
  by simp

text \<open>
  C8. \<open>top\<close> returns nothing exactly when \<open>object_count\<close> is 0, and otherwise the
  highest-ranked active identity. The code returns the object of the first identifier of
  \<open>m_id_list\<close>, and that list is ordered at registration only. In the sample run of C1 the
  tracker holds objects of size 1 and 3 after the second frame, and \<open>top\<close> returns the
  one of size 1.
\<close>

theorem top_returns_outranked_object:
  "run exact by_size insertion_sort
     [Update [Obj 0 0 0 5, Obj 10 0 0 3], Update [Obj 0 0 0 1, Obj 11 0 0 3]] tracker0 = Inr tracker2 \<and>
   fst (object_count tracker2) = 2 \<and>
   fst (top_obj tracker2) = Some (Obj 0 0 0 1) \<and>
   m_active_objects tracker2 1 = Some (Obj 11 0 0 3) \<and>
   by_size (Obj 11 0 0 3) (Obj 0 0 0 1)"
proof -
  have "run exact by_size insertion_sort
     [Update [Obj 0 0 0 5, Obj 10 0 0 3], Update [Obj 0 0 0 1, Obj 11 0 0 3]] tracker0 = Inr tracker2"
    using tracker1_step tracker2_step by simp
  moreover have "fst (object_count tracker2) = 2"
    by (simp add: tracker2_def object_count_def)
  moreover have "fst (top_obj tracker2) = Some (Obj 0 0 0 1)"
    by (simp add: tracker2_def top_obj_def object_count_def map_at_def)
  moreover have "m_active_objects tracker2 1 = Some (Obj 11 0 0 3)"
    by (simp add: tracker2_def)
  moreover have "by_size (Obj 11 0 0 3) (Obj 0 0 0 1)"
    by (simp add: by_size_def Obj_def)
  ultimately show ?thesis by blast
qed

text \<open>
  C9. Each row's ranking of the detection columns is in ascending order of distance,
  columns at equal distance in the order of their indices, as a stable sort leaves them.
  The rows are sorted with \<open>std::sort\<close>, which partitions a row of more than 16 columns
  before it sorts it. The sample row is that of a tracked object at the origin and the
  seventeen detections of \<open>ring17\<close>, all at distance 5: column 8 is ranked first and
  column 0 tenth.
\<close>

theorem rank_row_ties_counterexample:
  "length ring17 = 17 \<and>
   dist_matrix exact tracker_missed ring17 1 17 ! 0 = [5, 5, 5, 5, 5, 5, 5, 5, 5, 5, 5, 5, 5, 5, 5, 5, 5] \<and>
   rank_row_libstdcxx (dist_matrix exact tracker_missed ring17 1 17 ! 0) 17
     = Some [8, 16, 15, 14, 13, 12, 11, 10, 9, 0, 7, 6, 5, 4, 3, 2, 1] \<and>
   rank_row_libstdcxx (dist_matrix exact tracker_missed ring17 1 17 ! 0) 17 \<noteq> Some [0..<17]"
proof -
  have "[8, 16, 15, 14, 13, 12, 11, 10, 9, 0, 7, 6, 5, 4, 3, 2, 1] \<noteq> [0..<17::nat]"
    by (simp add: upt_conv_Cons)
  moreover have "length ring17 = 17" by (simp add: ring17_def)
  ultimately show ?thesis by (simp only: ring17_row ring17_rank nth_Cons_0) simp
qed

text \<open>
  C9, as the code has it: whatever the distances of a row and the number \<open>n\<close> of its
  columns, \<open>std::sort\<close> returns, and the ranking is the columns \<open>0..n-1\<close> in ascending order
  of distance, the value of a function of the row. A row of at most 16 columns is sorted
  by insertion alone, and there the columns at equal distance are in the order of their
  indices.
\<close>

theorem rank_row_libstdcxx_order:
  "\<exists>ys. rank_row_libstdcxx drow n = Some ys \<and> mset ys = mset [0..<n] \<and>
        sorted_wrt (\<lambda>a b. drow ! a \<le> drow ! b) ys \<and>
        (n \<le> 16 \<longrightarrow> sorted_wrt (\<lambda>a b. drow ! a < drow ! b \<or> drow ! a = drow ! b \<and> a < b) ys)"
proof -
  from gnu_sort_sorted[of "\<lambda>a. drow ! a" "[0..<n]"]
  obtain ys where y: "rank_row_libstdcxx drow n = Some ys" "mset ys = mset [0..<n]"
    "sorted_wrt (\<lambda>a b. drow ! a \<le> drow ! b) ys"
    unfolding rank_row_libstdcxx_def by blast
  have "sorted_wrt (\<lambda>a b. drow ! a < drow ! b \<or> drow ! a = drow ! b \<and> a < b) ys" if "n \<le> 16"
    using gnu_sort_small_stable[OF that, of "\<lambda>a. drow ! a"] y(1)
    unfolding rank_row_libstdcxx_def by auto
  with y show ?thesis by blast
qed

theorem rank_row_libstdcxx_order_witness:
  "(3::nat) \<le> 16 \<and>
   rank_row_libstdcxx [1, 1, 0] 3 = Some [2, 0, 1] \<and>
   sorted_wrt (\<lambda>a b. [1, 1, 0::real] ! a < [1, 1, 0] ! b \<or> [1, 1, 0::real] ! a = [1, 1, 0] ! b \<and> a < b) [2, 0, 1]"
proof -
  have v: "rank_row_libstdcxx [1, 1, 0] 3 = Some [2, 0, 1]" by code_simp
  from rank_row_libstdcxx_order[of "[1, 1, 0]" 3]
  obtain ys where "rank_row_libstdcxx [1, 1, 0] 3 = Some ys"
    "3 \<le> (16::nat) \<longrightarrow> sorted_wrt (\<lambda>a b. [1, 1, 0::real] ! a < [1, 1, 0] ! b \<or> [1, 1, 0::real] ! a = [1, 1, 0] ! b \<and> a < b) ys"
    by blast
  with v show ?thesis by simp
qed

text \<open>
  C10. \<open>topValid\<close> walks \<open>m_active_objects\<close> in key order: among the identities with
  \<open>m_framecount\<close> at least \<open>m_min_framecount\<close> and \<open>m_uprooted\<close> false it returns the object
  of the smallest identifier and sets its flag, whatever the ranking; with no such
  identity it returns nothing and changes nothing.
\<close>

theorem topValid_smallest_id:
  assumes "std_sort_ok srt" "reachable ar gt srt s"
  shows "((\<exists>k \<in> dom (m_active_objects s). eligible s k) \<longrightarrow>
           (\<exists>k \<in> dom (m_active_objects s). eligible s k \<and>
              (\<forall>k' \<in> dom (m_active_objects s). eligible s k' \<longrightarrow> k \<le> k') \<and>
              topValid s = (m_active_objects s k, s\<lparr>m_uprooted := (m_uprooted s)(k \<mapsto> True)\<rparr>))) \<and>
         ((\<forall>k \<in> dom (m_active_objects s). \<not> eligible s k) \<longrightarrow> topValid s = (None, s))"
proof -
  have inv: "tracker_inv s" by (rule reachable_inv[OF assms(2,1)])
  have a: "(\<exists>k \<in> dom (m_active_objects s). eligible s k) \<longrightarrow>
           (\<exists>k \<in> dom (m_active_objects s). eligible s k \<and>
              (\<forall>k' \<in> dom (m_active_objects s). eligible s k' \<longrightarrow> k \<le> k') \<and>
              topValid s = (m_active_objects s k, s\<lparr>m_uprooted := (m_uprooted s)(k \<mapsto> True)\<rparr>))"
  proof
    assume "\<exists>k \<in> dom (m_active_objects s). eligible s k"
    then have "set (eligible_ids s) \<noteq> {}" using eligible_ids_set[OF inv] by auto
    then obtain k rest where e: "eligible_ids s = k # rest" by (cases "eligible_ids s") auto
    from eligible_ids_hd[OF inv e] have h: "k \<in> dom (m_active_objects s)" "eligible s k"
      "\<forall>k' \<in> dom (m_active_objects s). eligible s k' \<longrightarrow> k \<le> k'" by blast+
    have "topValid s = (m_active_objects s k, s\<lparr>m_uprooted := (m_uprooted s)(k \<mapsto> True)\<rparr>)"
      using h(1) by (auto simp: topValid_inv[OF inv] e claim_def)
    with h show "\<exists>k \<in> dom (m_active_objects s). eligible s k \<and>
              (\<forall>k' \<in> dom (m_active_objects s). eligible s k' \<longrightarrow> k \<le> k') \<and>
              topValid s = (m_active_objects s k, s\<lparr>m_uprooted := (m_uprooted s)(k \<mapsto> True)\<rparr>)"
      by blast
  qed
  have b: "(\<forall>k \<in> dom (m_active_objects s). \<not> eligible s k) \<longrightarrow> topValid s = (None, s)"
  proof
    assume "\<forall>k \<in> dom (m_active_objects s). \<not> eligible s k"
    then have "set (eligible_ids s) = {}" using eligible_ids_set[OF inv] by auto
    then show "topValid s = (None, s)" by (simp add: topValid_inv[OF inv])
  qed
  from a b show ?thesis by (rule conjI)
qed

theorem topValid_smallest_id_witness:
  "std_sort_ok insertion_sort \<and> reachable exact by_size insertion_sort tracker4 \<and>
   eligible tracker4 0 \<and> eligible tracker4 1 \<and>
   topValid tracker4 = (Some (Obj 0 0 0 3), tracker4\<lparr>m_uprooted := (m_uprooted tracker4)(0 \<mapsto> True)\<rparr>) \<and>
   fst (top_obj tracker4) = Some (Obj 11 0 0 5)"
proof -
  have e: "eligible tracker4 0" "eligible tracker4 1"
    by (simp_all add: tracker4_def eligible_def map_at_def)
  have d: "(0::nat) \<in> dom (m_active_objects tracker4)"
    by (simp add: tracker4_def)
  then have "\<exists>k \<in> dom (m_active_objects tracker4). eligible tracker4 k"
    using e(1) by blast
  with topValid_smallest_id[OF insertion_sort_ok reachable_tracker4]
  obtain k where k: "\<forall>k' \<in> dom (m_active_objects tracker4). eligible tracker4 k' \<longrightarrow> k \<le> k'"
    "topValid tracker4 = (m_active_objects tracker4 k, tracker4\<lparr>m_uprooted := (m_uprooted tracker4)(k \<mapsto> True)\<rparr>)"
    by blast
  from k(1) d e(1) have "k = 0" by auto
  with k(2) have "topValid tracker4 = (Some (Obj 0 0 0 3), tracker4\<lparr>m_uprooted := (m_uprooted tracker4)(0 \<mapsto> True)\<rparr>)"
    by (simp add: tracker4_def)
  moreover have "fst (top_obj tracker4) = Some (Obj 11 0 0 5)"
    by (simp add: tracker4_def top_obj_def object_count_def map_at_def)
  ultimately show ?thesis using e insertion_sort_ok reachable_tracker4 by blast
qed


end
